theory Spec2Isabelle
  imports Main
begin

section \<open>SPF mechanism parser and recursive flattener (spfParser.js)\<close>

text \<open>
  A shallow embedding of \<^verbatim>\<open>spfParser.js\<close>: \<^verbatim>\<open>parseSpf\<close>, \<^verbatim>\<open>resolveSpfTxtRecord\<close>,
  \<^verbatim>\<open>recursiveFlattenSpf\<close> and \<^verbatim>\<open>flattenSpf\<close>.

  A JavaScript string is modelled as the list of its code units, for code units in the
  range 0..255 (a \<open>char\<close>). An \<^verbatim>\<open>async\<close> function is modelled by the value its promise
  settles to: \<open>Inr\<close> for a fulfilled promise, \<open>Inl\<close> for a rejected one.
\<close>

subsection \<open>Data\<close>

text \<open>The object \<^verbatim>\<open>{ qualifier, type, value }\<close> pushed by \<^verbatim>\<open>parseSpf\<close>.\<close>

record mechanism =
  qualifier :: string
  type :: string
  value' :: string

text \<open>\<^verbatim>\<open>new Error("Invalid SPF record provided. Must be a non-empty string.")\<close>\<close>

datatype error = InvalidSpfRecord

text \<open>
  The reason a resolver promise is rejected with: an error object with an optional
  \<^verbatim>\<open>code\<close> and a \<^verbatim>\<open>message\<close>.
\<close>

datatype dns_error = DnsError (code: "string option") (message: string)

text \<open>Lines written by \<^verbatim>\<open>console.warn\<close> (one argument) and \<^verbatim>\<open>console.error\<close> (two).\<close>

datatype console_line = Warn string | Err string string

text \<open>
  The method \<^verbatim>\<open>dnsResolver.resolveTxt\<close> of the module-level resolver, which
  \<^verbatim>\<open>setDnsResolver\<close> replaces: from the resolver's own state and a hostname to the
  array of TXT records (each an array of chunks) or a rejection, and the resolver's next
  state.
\<close>

type_synonym 'r resolveTxt = "'r \<Rightarrow> string \<Rightarrow> (dns_error + string list list) \<times> 'r"

text \<open>
  What the code acts on besides its arguments: the resolver's state, the hostnames
  \<^verbatim>\<open>resolveTxt\<close> has been called with (in call order) and the console.
\<close>

record 'r world =
  resolver :: 'r
  queries :: "string list"
  console :: "console_line list"

definition MAX_DNS_LOOKUPS :: nat where
  "MAX_DNS_LOOKUPS = 10"

subsection \<open>String primitives of the JavaScript library\<close>

text \<open>\<^verbatim>\<open>\s\<close> on code units below 256: TAB, LF, VT, FF, CR, space and U+00A0.\<close>

definition isWhitespace :: "char \<Rightarrow> bool" where
  "isWhitespace c =
     (c \<in> set [CHR 0x09, CHR 0x0A, CHR 0x0B, CHR 0x0C, CHR 0x0D, CHR 0x20, CHR 0xA0])"

text \<open>
  \<^verbatim>\<open>s.split(/\s+/)\<close>, scanning with the piece being built and a flag that is true
  inside a run of whitespace: a run ends the piece before it, so a leading or trailing
  run leaves an empty first or last piece.
\<close>

fun splitWhitespace :: "string \<Rightarrow> string \<Rightarrow> bool \<Rightarrow> string list" where
  "splitWhitespace [] piece inRun = [piece]"
| "splitWhitespace (c # cs) piece inRun =
     (if isWhitespace c then
        (if inRun then splitWhitespace cs piece True
         else piece # splitWhitespace cs [] True)
      else splitWhitespace cs (piece @ [c]) False)"

text \<open>\<^verbatim>\<open>s.split(sep)\<close> for a separator of one code unit.\<close>

fun split :: "char \<Rightarrow> string \<Rightarrow> string list" where
  "split sep [] = [[]]"
| "split sep (c # cs) =
     (if c = sep then [] # split sep cs
      else (case split sep cs of
              p # ps \<Rightarrow> (c # p) # ps
            | [] \<Rightarrow> [[c]]))"

text \<open>\<^verbatim>\<open>parts.join(sep)\<close> for a separator of one code unit.\<close>

fun join :: "char \<Rightarrow> string list \<Rightarrow> string" where
  "join sep [] = []"
| "join sep [p] = p"
| "join sep (p # q # ps) = p @ sep # join sep (q # ps)"

definition startsWith :: "string \<Rightarrow> string \<Rightarrow> bool" where
  "startsWith s p = (take (length p) s = p)"

subsection \<open>parseSpf\<close>

text \<open>
  The callback of \<^verbatim>\<open>mechanisms.forEach\<close>. \<^verbatim>\<open>mechanismString[0]\<close> of an empty string
  is \<^verbatim>\<open>undefined\<close>, which is no qualifier. \<^verbatim>\<open>partsWithEquals[1]\<close> is read only when
  the text holds an \<^verbatim>\<open>=\<close>, so that the array has at least two elements
  (lemma \<open>split_length\<close> below).
\<close>

definition parseMechanism :: "string \<Rightarrow> mechanism" where
  "parseMechanism mechanismString =
     (let (qualifier0, type0) =
            (case mechanismString of
               [] \<Rightarrow> (''+'', mechanismString)
             | c # rest \<Rightarrow>
                 if c \<in> set [CHR ''+'', CHR ''-'', CHR ''~'', CHR ''?'']
                 then ([c], rest) else (''+'', mechanismString));
          parts = split CHR '':'' type0
      in if length parts > 1 then
           \<lparr>qualifier = qualifier0, type = hd parts, value' = join CHR '':'' (tl parts)\<rparr>
         else if CHR ''='' \<in> set type0 then
           (let partsWithEquals = split CHR ''='' type0
            in \<lparr>qualifier = qualifier0, type = partsWithEquals ! 0,
                 value' = partsWithEquals ! 1\<rparr>)
         else if type0 = ''all'' then
           \<lparr>qualifier = qualifier0, type = type0, value' = ''all''\<rparr>
         else \<lparr>qualifier = qualifier0, type = type0, value' = ''''\<rparr>)"

text \<open>
  The argument is a string by its type; \<^verbatim>\<open>!spfRecord\<close> holds of the empty string
  only.
\<close>

definition parseSpf :: "string \<Rightarrow> error + mechanism list" where
  "parseSpf spfRecord =
     (if spfRecord = [] then Inl InvalidSpfRecord
      else Inr (map parseMechanism
                  (filter (\<lambda>part. length part > 0) (splitWhitespace spfRecord [] False))))"

subsection \<open>resolveSpfTxtRecord\<close>

text \<open>
  Everything between \<^verbatim>\<open>try\<close> and \<^verbatim>\<open>catch\<close> is the call of \<^verbatim>\<open>resolveTxt\<close> and
  the filter; the two branches on \<^verbatim>\<open>error.code\<close> differ in the console line only.
\<close>

definition resolveSpfTxtRecord ::
  "'r resolveTxt \<Rightarrow> string \<Rightarrow> nat \<Rightarrow> 'r world \<Rightarrow> (string list \<times> nat) \<times> 'r world" where
  "resolveSpfTxtRecord rt hostname currentDnsLookups w =
     (if currentDnsLookups \<ge> MAX_DNS_LOOKUPS then
        (([], currentDnsLookups),
         w\<lparr>console := console w @
             [Warn (''Maximum DNS lookup limit (10) exceeded for '' @ hostname @ ''.'')]\<rparr>)
      else
        (case rt (resolver w) hostname of
           (Inr records, r') \<Rightarrow>
             ((filter (\<lambda>record. startsWith record ''v=spf1'') (map concat records),
               currentDnsLookups + 1),
              w\<lparr>resolver := r', queries := queries w @ [hostname]\<rparr>)
         | (Inl err, r') \<Rightarrow>
             (([], currentDnsLookups + 1),
              w\<lparr>resolver := r', queries := queries w @ [hostname],
                console := console w @
                  [if code err = Some ''ENOTFOUND'' \<or> code err = Some ''ESERVFAIL''
                      \<or> code err = Some ''ENODATA''
                   then Warn (''DNS lookup for '' @ hostname @ '' failed: '' @ message err
                              @ ''. Skipping this record.'')
                   else Err (''DNS TXT lookup failed for '' @ hostname @ '':'')
                          (message err)]\<rparr>)))"

subsection \<open>recursiveFlattenSpf\<close>

text \<open>
  The duplicate-removal loop. \<^verbatim>\<open>JSON.stringify\<close> of two objects with the three string
  fields in the same order gives the same text exactly when the fields are equal, so the
  set \<^verbatim>\<open>seen\<close> is kept as a set of mechanisms.
\<close>

fun dedupLoop :: "mechanism list \<Rightarrow> mechanism list \<Rightarrow> mechanism set \<Rightarrow> mechanism list" where
  "dedupLoop [] uniqueMechanisms seen = uniqueMechanisms"
| "dedupLoop (mech # rest) uniqueMechanisms seen =
     (if mech \<notin> seen then dedupLoop rest (uniqueMechanisms @ [mech]) (insert mech seen)
      else dedupLoop rest uniqueMechanisms seen)"

text \<open>The code after the main loop: duplicates removed, then the level's own all.\<close>

definition postPass :: "mechanism list \<Rightarrow> mechanism option \<Rightarrow> mechanism list" where
  "postPass flattenedMechanisms finalAllMechanism =
     (let uniqueMechanisms = dedupLoop flattenedMechanisms [] {} in
      case finalAllMechanism of
        Some a \<Rightarrow> filter (\<lambda>m. type m \<noteq> ''all'') uniqueMechanisms @ [a]
      | None \<Rightarrow> uniqueMechanisms)"

text \<open>
  How the main loop ends: by the \<^verbatim>\<open>return\<close> of the redirect branch, with the object
  returned, or by running out of mechanisms, with \<^verbatim>\<open>flattenedMechanisms\<close> and
  \<^verbatim>\<open>finalAllMechanism\<close> as the loop leaves them.
\<close>

datatype loop_end =
  Returned "mechanism list"
| Completed "mechanism list" "mechanism option"

text \<open>
  \<open>recursiveFlattenSpf\<close> is the function; \<open>flattenMechanisms\<close> is its loop
  \<^verbatim>\<open>for (const mechanism of parsedSpf)\<close> from the mechanisms still to visit, with the
  variables \<^verbatim>\<open>flattenedMechanisms\<close>, \<^verbatim>\<open>dnsLookups\<close> and \<^verbatim>\<open>finalAllMechanism\<close>;
  \<open>flattenIncluded\<close> is the loop \<^verbatim>\<open>for (const record of resolvedSpfRecords)\<close> of the
  include branch. A throwing \<^verbatim>\<open>parseSpf\<close> rejects the promise (\<open>Inl\<close>).
\<close>

function
  recursiveFlattenSpf ::
    "'r resolveTxt \<Rightarrow> mechanism list \<Rightarrow> string \<Rightarrow> nat \<Rightarrow> 'r world
      \<Rightarrow> (error + mechanism list \<times> nat) \<times> 'r world"
  and flattenMechanisms ::
    "'r resolveTxt \<Rightarrow> mechanism list \<Rightarrow> mechanism list \<Rightarrow> nat \<Rightarrow> mechanism option
      \<Rightarrow> 'r world \<Rightarrow> (error + loop_end \<times> nat) \<times> 'r world"
  and flattenIncluded ::
    "'r resolveTxt \<Rightarrow> string list \<Rightarrow> string \<Rightarrow> mechanism list \<Rightarrow> nat
      \<Rightarrow> 'r world \<Rightarrow> (error + mechanism list \<times> nat) \<times> 'r world"
where
  "recursiveFlattenSpf rt parsedSpf domain currentDnsLookups w =
     (case flattenMechanisms rt parsedSpf [] currentDnsLookups None w of
        (Inl e, w') \<Rightarrow> (Inl e, w')
      | (Inr (Returned subFlattened, dnsLookups), w') \<Rightarrow> (Inr (subFlattened, dnsLookups), w')
      | (Inr (Completed flattenedMechanisms finalAllMechanism, dnsLookups), w') \<Rightarrow>
          (Inr (postPass flattenedMechanisms finalAllMechanism, dnsLookups), w'))"
| "flattenMechanisms rt [] flattenedMechanisms dnsLookups finalAllMechanism w =
     (Inr (Completed flattenedMechanisms finalAllMechanism, dnsLookups), w)"
| "flattenMechanisms rt (m # ms) flattenedMechanisms dnsLookups finalAllMechanism w =
     (if type m = ''v'' then
        flattenMechanisms rt ms flattenedMechanisms dnsLookups finalAllMechanism w
      else if type m = ''redirect'' then
        (case resolveSpfTxtRecord rt (value' m) dnsLookups w of
           ((r # rs, newLookupCount), w') \<Rightarrow>
             (case parseSpf r of
                Inl e \<Rightarrow> (Inl e, w')
              | Inr subParsedSpf \<Rightarrow>
                  (case recursiveFlattenSpf rt subParsedSpf (value' m) newLookupCount w' of
                     (Inl e, w'') \<Rightarrow> (Inl e, w'')
                   | (Inr (subFlattened, subNewLookupCount), w'') \<Rightarrow>
                       (Inr (Returned subFlattened, subNewLookupCount), w'')))
         | (([], newLookupCount), w') \<Rightarrow> (Inr (Returned [], newLookupCount), w'))
      else if type m = ''include'' then
        (case resolveSpfTxtRecord rt (value' m) dnsLookups w of
           ((resolvedSpfRecords, newLookupCount), w') \<Rightarrow>
             (case flattenIncluded rt resolvedSpfRecords (value' m) flattenedMechanisms
                     newLookupCount w' of
                (Inl e, w'') \<Rightarrow> (Inl e, w'')
              | (Inr (flattenedMechanisms', dnsLookups'), w'') \<Rightarrow>
                  flattenMechanisms rt ms flattenedMechanisms' dnsLookups'
                    finalAllMechanism w''))
      else if type m = ''all'' then
        flattenMechanisms rt ms flattenedMechanisms dnsLookups (Some m) w
      else flattenMechanisms rt ms (flattenedMechanisms @ [m]) dnsLookups finalAllMechanism w)"
| "flattenIncluded rt [] hostnameToLookup flattenedMechanisms dnsLookups w =
     (Inr (flattenedMechanisms, dnsLookups), w)"
| "flattenIncluded rt (r # rs) hostnameToLookup flattenedMechanisms dnsLookups w =
     (case parseSpf r of
        Inl e \<Rightarrow> (Inl e, w)
      | Inr subParsedSpf \<Rightarrow>
          (case recursiveFlattenSpf rt subParsedSpf hostnameToLookup dnsLookups w of
             (Inl e, w') \<Rightarrow> (Inl e, w')
           | (Inr (subFlattened, subNewLookupCount), w') \<Rightarrow>
               flattenIncluded rt rs hostnameToLookup
                 (flattenedMechanisms @ filter (\<lambda>m. type m \<noteq> ''v'') subFlattened)
                 subNewLookupCount w'))"
  by pat_completeness auto

text \<open>
  Termination. A resolution at or above the ceiling returns no record, so a recursive call
  follows a resolution that has raised the counter; and no call lowers the counter, which
  is shown first, on the domain of the functions.
\<close>

lemma resolveSpfTxtRecord_count:
  "resolveSpfTxtRecord rt h n w = ((rs, n'), w') \<Longrightarrow>
     (if MAX_DNS_LOOKUPS \<le> n then n' = n \<and> rs = [] else n' = Suc n)"
  by (auto simp: resolveSpfTxtRecord_def split: if_splits prod.splits sum.splits)

lemma resolveSpfTxtRecord_le:
  "resolveSpfTxtRecord rt h n w = ((rs, n'), w') \<Longrightarrow> n \<le> n'"
  by (drule resolveSpfTxtRecord_count) (auto split: if_splits)

lemma count_mono_dom:
  "recursiveFlattenSpf_flattenMechanisms_flattenIncluded_dom (Inl (rt, p, d, n, w)) \<Longrightarrow>
     recursiveFlattenSpf rt p d n w = (Inr (res, n'), w') \<Longrightarrow> n \<le> n'"
  "recursiveFlattenSpf_flattenMechanisms_flattenIncluded_dom
      (Inr (Inl (rt, ms, acc, n, fa, w))) \<Longrightarrow>
     flattenMechanisms rt ms acc n fa w = (Inr (le, n'), w') \<Longrightarrow> n \<le> n'"
  "recursiveFlattenSpf_flattenMechanisms_flattenIncluded_dom
      (Inr (Inr (rt, rs, h, acc, n, w))) \<Longrightarrow>
     flattenIncluded rt rs h acc n w = (Inr (res, n'), w') \<Longrightarrow> n \<le> n'"
proof (induct arbitrary: res n' w' and le n' w' and res n' w'
    rule: recursiveFlattenSpf_flattenMechanisms_flattenIncluded.pinduct)
  case (1 rt parsedSpf domain currentDnsLookups w)
  from "1.prems" obtain le where
    "flattenMechanisms rt parsedSpf [] currentDnsLookups None w = (Inr (le, n'), w')"
    by (auto simp: recursiveFlattenSpf.psimps[OF "1.hyps"(1)]
        split: prod.splits sum.splits loop_end.splits)
  then show ?case by (rule "1.hyps"(2))
next
  case (2 rt flattened dnsLookups finalAll w)
  then show ?case by (simp add: flattenMechanisms.psimps)
next
  case (3 rt m ms flattened dnsLookups finalAll w)
  note eq = "3.prems"[unfolded flattenMechanisms.psimps(2)[OF "3.hyps"(1)]]
  consider (v) "type m = ''v''"
    | (redirect) "type m \<noteq> ''v''" "type m = ''redirect''"
    | (incl) "type m \<noteq> ''v''" "type m \<noteq> ''redirect''" "type m = ''include''"
    | (all) "type m \<noteq> ''v''" "type m \<noteq> ''redirect''" "type m \<noteq> ''include''"
        "type m = ''all''"
    | (other) "type m \<noteq> ''v''" "type m \<noteq> ''redirect''" "type m \<noteq> ''include''"
        "type m \<noteq> ''all''"
    by blast
  then show ?case
  proof cases
    case v
    with eq "3.hyps"(2) show ?thesis by simp
  next
    case redirect
    obtain rs n1 w1 where r: "resolveSpfTxtRecord rt (value' m) dnsLookups w = ((rs, n1), w1)"
      by (metis surj_pair)
    have le1: "dnsLookups \<le> n1" using resolveSpfTxtRecord_le[OF r] .
    show ?thesis
    proof (cases rs)
      case Nil
      with eq redirect r le1 show ?thesis by simp
    next
      case (Cons x xs)
      with eq redirect r obtain sub sf where
        p: "parseSpf x = Inr sub" and
        s: "recursiveFlattenSpf rt sub (value' m) n1 w1 = (Inr (sf, n'), w')"
        by (auto split: sum.splits prod.splits)
      have "n1 \<le> n'"
        using "3.hyps"(3)[OF redirect r[symmetric] refl Cons p s] .
      with le1 show ?thesis by simp
    qed
  next
    case incl
    obtain rs n1 w1 where r: "resolveSpfTxtRecord rt (value' m) dnsLookups w = ((rs, n1), w1)"
      by (metis surj_pair)
    have le1: "dnsLookups \<le> n1" using resolveSpfTxtRecord_le[OF r] .
    from eq incl r obtain acc2 n2 w2 where
      f: "flattenIncluded rt rs (value' m) flattened n1 w1 = (Inr (acc2, n2), w2)" and
      g: "flattenMechanisms rt ms acc2 n2 finalAll w2 = (Inr (le, n'), w')"
      by (auto split: sum.splits prod.splits)
    have "n1 \<le> n2" using "3.hyps"(4)[OF incl r[symmetric] refl f] .
    moreover have "n2 \<le> n'"
      using "3.hyps"(5)[OF incl r[symmetric] refl f[symmetric] refl refl g] .
    ultimately show ?thesis using le1 by simp
  next
    case all
    with eq "3.hyps"(6) show ?thesis by simp
  next
    case other
    with eq "3.hyps"(7) show ?thesis by simp
  qed
next
  case (4 rt host flattened n w)
  then show ?case by (simp add: flattenIncluded.psimps)
next
  case (5 rt r rs host flattened n w)
  from "5.prems" obtain sub sf n1 w1 where
    p: "parseSpf r = Inr sub" and
    s: "recursiveFlattenSpf rt sub host n w = (Inr (sf, n1), w1)" and
    t: "flattenIncluded rt rs host (flattened @ filter (\<lambda>m. type m \<noteq> ''v'') sf) n1 w1
          = (Inr (res, n'), w')"
    by (auto simp: flattenIncluded.psimps(2)[OF "5.hyps"(1)] split: sum.splits prod.splits)
  have "n \<le> n1" using "5.hyps"(2)[OF p s] .
  moreover have "n1 \<le> n'" using "5.hyps"(3)[OF p s[symmetric] refl refl t] .
  ultimately show ?case by simp
qed

termination recursiveFlattenSpf
proof (relation "inv_image (measure id <*lex*> measure id <*lex*> measure id)
    (\<lambda>x. case x of
       Inl (rt, p, d, n, w) \<Rightarrow> (MAX_DNS_LOOKUPS - n, 2::nat, 0::nat)
     | Inr (Inl (rt, ms, acc, n, fa, w)) \<Rightarrow> (MAX_DNS_LOOKUPS - n, 1, length ms)
     | Inr (Inr (rt, rs, h, acc, n, w)) \<Rightarrow>
         (MAX_DNS_LOOKUPS - n, if rs = [] then 0 else 3, length rs))", goal_cases)
  case 1
  show ?case by (intro wf_inv_image wf_lex_prod wf_measure)
next
  case 2
  show ?case by simp
next
  case 3
  show ?case by simp
next
  case (4 rt m ms flattened dnsLookups finalAll w x y xa ya x21 x22 b)
  then have "resolveSpfTxtRecord rt (value' m) dnsLookups w = ((x21 # x22, ya), y)"
    by simp
  from resolveSpfTxtRecord_count[OF this] show ?case
    by (auto split: if_splits)
next
  case (5 rt m ms flattened dnsLookups finalAll w x y xa ya)
  then have "resolveSpfTxtRecord rt (value' m) dnsLookups w = ((xa, ya), y)"
    by simp
  from resolveSpfTxtRecord_count[OF this] show ?case
    by (auto split: if_splits)
next
  case (6 rt m ms flattened dnsLookups finalAll w x y xa ya xb yb b xc yc)
  then have r: "resolveSpfTxtRecord rt (value' m) dnsLookups w = ((xa, ya), y)"
    and f: "flattenIncluded rt xa (value' m) flattened ya y = (Inr (xc, yc), yb)"
    by simp_all
  have "dnsLookups \<le> ya" using resolveSpfTxtRecord_le[OF r] .
  moreover have "ya \<le> yc" using count_mono_dom(3)[OF "6"(9) f] .
  ultimately show ?case by auto
next
  case 7
  show ?case by simp
next
  case 8
  show ?case by simp
next
  case 9
  show ?case by simp
next
  case (10 rt r rs host flattened n w b x y ba xa ya)
  then have f: "recursiveFlattenSpf rt b host n w = (Inr (xa, ya), y)"
    by simp
  have "n \<le> ya" using count_mono_dom(1)[OF "10"(5) f] .
  then show ?case by auto
qed

subsection \<open>flattenSpf\<close>

definition flattenSpf ::
  "'r resolveTxt \<Rightarrow> mechanism list \<Rightarrow> string \<Rightarrow> 'r world
    \<Rightarrow> (error + mechanism list) \<times> 'r world" where
  "flattenSpf rt parsedSpf domain w =
     (case recursiveFlattenSpf rt parsedSpf domain 0 w of
        (Inl e, w') \<Rightarrow> (Inl e, w')
      | (Inr (flattenedMechanisms, newLookupCount), w') \<Rightarrow>
          (case find (\<lambda>mech. type mech = ''v'' \<and> value' mech = ''spf1'') parsedSpf of
             Some vSpf1 \<Rightarrow> (Inr (vSpf1 # flattenedMechanisms), w')
           | None \<Rightarrow> (Inr flattenedMechanisms, w')))"

subsection \<open>Resolvers and records of the test suite\<close>

text \<open>
  The stub of \<^verbatim>\<open>test/spfParser.test.js\<close>: a table from hostnames to what
  \<^verbatim>\<open>resolveTxt\<close> resolves or rejects with. For a hostname that is not in the table the
  stub returns \<^verbatim>\<open>undefined\<close>, and \<^verbatim>\<open>records.map\<close> throws inside the \<^verbatim>\<open>try\<close>.
\<close>

definition stubResolveTxt ::
  "(string \<times> (dns_error + string list list)) list \<Rightarrow> unit resolveTxt" where
  "stubResolveTxt answers r hostname =
     (case map_of answers hostname of
        Some answer \<Rightarrow> (answer, r)
      | None \<Rightarrow> (Inl (DnsError None ''Cannot read properties of undefined''), r))"

definition freshWorld :: "unit world" where
  "freshWorld = \<lparr>resolver = (), queries = [], console = []\<rparr>"

text \<open>Two domains that include each other.\<close>

definition cyclicAnswers :: "(string \<times> (dns_error + string list list)) list" where
  "cyclicAnswers = [(''a.example'', Inr [[''v=spf1 include:b.example '', ''~all'']]),
                    (''b.example'', Inr [[''v=spf1 include:a.example -all'']])]"

subsection \<open>The lookup counter and the queries issued\<close>

text \<open>
  From counter \<open>n\<close> and world \<open>w\<close> to counter \<open>n'\<close> and world \<open>w'\<close>: the counter
  has not decreased, has not passed the ceiling unless it started above it, and has grown
  by the number of queries issued in between.
\<close>

definition lookups_step :: "nat \<Rightarrow> 'r world \<Rightarrow> nat \<Rightarrow> 'r world \<Rightarrow> bool" where
  "lookups_step n w n' w' =
     (n \<le> n' \<and> n' \<le> max n MAX_DNS_LOOKUPS \<and>
      (\<exists>qs. queries w' = queries w @ qs \<and> n + length qs = n'))"

subsection \<open>Notions used in the statements\<close>

text \<open>
  The value of \<^verbatim>\<open>finalAllMechanism\<close> after a loop over \<open>ms\<close> that started with
  \<open>fa\<close> and met no redirect: the last mechanism of \<open>ms\<close> of type all, if there is one.
\<close>

definition ownAll :: "mechanism list \<Rightarrow> mechanism option \<Rightarrow> mechanism option" where
  "ownAll ms fa =
     (case filter (\<lambda>m. type m = ''all'') ms of [] \<Rightarrow> fa | a # as \<Rightarrow> Some (last (a # as)))"

text \<open>
  What the tests and \<^verbatim>\<open>runFlattening\<close> do with a record string:
  \<^verbatim>\<open>flattenSpf(parseSpf(record), domain)\<close>.
\<close>

definition flattenRecord ::
  "'r resolveTxt \<Rightarrow> string \<Rightarrow> string \<Rightarrow> 'r world \<Rightarrow> (error + mechanism list) \<times> 'r world" where
  "flattenRecord rt spfRecord domain w =
     (case parseSpf spfRecord of
        Inl e \<Rightarrow> (Inl e, w)
      | Inr parsedSpf \<Rightarrow> flattenSpf rt parsedSpf domain w)"

text \<open>
  A parsed record that is in the form \<open>flattenSpf\<close> produces: its mechanisms of type v
  are one \<^verbatim>\<open>v=spf1\<close> in front, or none; its mechanisms of type all are one in last
  position, or none; and the others are pairwise distinct.
\<close>

definition canonicalRecord :: "mechanism list \<Rightarrow> bool" where
  "canonicalRecord parsedSpf =
     (let body = filter (\<lambda>m. type m \<noteq> ''v'' \<and> type m \<noteq> ''all'') parsedSpf
      in distinct body \<and>
         parsedSpf =
           (case find (\<lambda>mech. type mech = ''v'' \<and> value' mech = ''spf1'') parsedSpf of
              Some vSpf1 \<Rightarrow> [vSpf1] | None \<Rightarrow> [])
           @ body
           @ (case ownAll parsedSpf None of Some a \<Rightarrow> [a] | None \<Rightarrow> []))"

text \<open>The qualifier of a token, and the token after its qualifier.\<close>

definition qualifierOf :: "string \<Rightarrow> string" where
  "qualifierOf t = (case t of [] \<Rightarrow> ''+''
      | c # rest \<Rightarrow> if c \<in> set [CHR ''+'', CHR ''-'', CHR ''~'', CHR ''?''] then [c] else ''+'')"

definition afterQualifier :: "string \<Rightarrow> string" where
  "afterQualifier t = (case t of [] \<Rightarrow> []
      | c # rest \<Rightarrow> if c \<in> set [CHR ''+'', CHR ''-'', CHR ''~'', CHR ''?''] then rest else t)"

abbreviation mech :: "string \<Rightarrow> string \<Rightarrow> string \<Rightarrow> mechanism" where
  "mech q t v \<equiv> \<lparr>qualifier = q, type = t, value' = v\<rparr>"

section \<open>Properties\<close>

subsection \<open>No call rejects\<close>

lemma startsWith_nonempty: "startsWith r ''v=spf1'' \<Longrightarrow> r \<noteq> []"
  by (auto simp: startsWith_def)

lemma resolveSpfTxtRecord_records:
  "resolveSpfTxtRecord rt h n w = ((rs, n'), w') \<Longrightarrow> r \<in> set rs \<Longrightarrow> startsWith r ''v=spf1''"
  by (auto simp: resolveSpfTxtRecord_def split: if_splits prod.splits sum.splits)

lemma resolveSpfTxtRecord_nonempty:
  "resolveSpfTxtRecord rt h n w = ((rs, n'), w') \<Longrightarrow> r \<in> set rs \<Longrightarrow> r \<noteq> []"
  by (blast dest: resolveSpfTxtRecord_records startsWith_nonempty)

lemma parseSpf_Inr: "r \<noteq> [] \<Longrightarrow> \<exists>ms. parseSpf r = Inr ms"
  by (simp add: parseSpf_def)

lemma not_isl_fstD: "\<not> isl (fst x) \<Longrightarrow> \<exists>y w. x = (Inr y, w)"
  by (cases x; cases "fst x") auto

lemma no_throw:
  "\<not> isl (fst (recursiveFlattenSpf rt p d n w))"
  "\<not> isl (fst (flattenMechanisms rt ms acc n fa w))"
  "(\<forall>r\<in>set rs. r \<noteq> []) \<Longrightarrow> \<not> isl (fst (flattenIncluded rt rs h acc n w))"
proof (induct rule: recursiveFlattenSpf_flattenMechanisms_flattenIncluded.induct)
  case (1 rt parsedSpf domain currentDnsLookups w)
  then show ?case by (auto split: prod.splits sum.splits loop_end.splits)
next
  case (2 rt flattenedMechanisms dnsLookups finalAllMechanism w)
  then show ?case by simp
next
  case (3 rt m ms acc n fa w)
  consider (v) "type m = ''v''"
    | (redirect) "type m \<noteq> ''v''" "type m = ''redirect''"
    | (incl) "type m \<noteq> ''v''" "type m \<noteq> ''redirect''" "type m = ''include''"
    | (all) "type m \<noteq> ''v''" "type m \<noteq> ''redirect''" "type m \<noteq> ''include''"
        "type m = ''all''"
    | (other) "type m \<noteq> ''v''" "type m \<noteq> ''redirect''" "type m \<noteq> ''include''"
        "type m \<noteq> ''all''"
    by blast
  then show ?case
  proof cases
    case v
    with "3"(1) show ?thesis by simp
  next
    case redirect
    obtain rs n1 w1 where r: "resolveSpfTxtRecord rt (value' m) n w = ((rs, n1), w1)"
      by (metis surj_pair)
    show ?thesis
    proof (cases rs)
      case Nil
      with redirect r show ?thesis by simp
    next
      case (Cons x xs)
      with r have "x \<noteq> []" by (auto dest: resolveSpfTxtRecord_nonempty)
      then obtain sub where p: "parseSpf x = Inr sub" by (auto dest: parseSpf_Inr)
      from not_isl_fstD[OF "3"(2)[OF redirect r[symmetric] refl Cons p]]
      show ?thesis using redirect r Cons p by auto
    qed
  next
    case incl
    obtain rs n1 w1 where r: "resolveSpfTxtRecord rt (value' m) n w = ((rs, n1), w1)"
      by (metis surj_pair)
    have "\<forall>r\<in>set rs. r \<noteq> []" using r by (auto dest: resolveSpfTxtRecord_nonempty)
    from not_isl_fstD[OF "3"(3)[OF incl r[symmetric] refl this]]
    obtain acc2 n2 w2 where
      f: "flattenIncluded rt rs (value' m) acc n1 w1 = (Inr (acc2, n2), w2)"
      by auto
    from "3"(4)[OF incl r[symmetric] refl f[symmetric] refl refl]
    show ?thesis using incl r f by simp
  next
    case all
    with "3"(5) show ?thesis by simp
  next
    case other
    with "3"(6) show ?thesis by simp
  qed
next
  case (4 rt hostnameToLookup flattenedMechanisms dnsLookups w)
  then show ?case by simp
next
  case (5 rt r rs h acc n w)
  from "5.prems" have "r \<noteq> []" by simp
  then obtain sub where p: "parseSpf r = Inr sub" by (auto dest: parseSpf_Inr)
  from not_isl_fstD[OF "5.hyps"(1)[OF p]] obtain sf n1 w1 where
    s: "recursiveFlattenSpf rt sub h n w = (Inr (sf, n1), w1)" by auto
  from "5.hyps"(2)[OF p s[symmetric] refl refl] "5.prems"
  show ?case using p s by simp
qed

subsection \<open>The main loop\<close>

lemma flattenIncluded_Inr:
  assumes "resolveSpfTxtRecord rt h n w = ((rs, n1), w1)"
  shows "\<exists>acc' n' w'. flattenIncluded rt rs h' acc n1 w1 = (Inr (acc', n'), w')"
proof -
  have "\<forall>r\<in>set rs. r \<noteq> []" using assms by (auto dest: resolveSpfTxtRecord_nonempty)
  from not_isl_fstD[OF no_throw(3)[OF this]] show ?thesis by auto
qed

lemma flattenMechanisms_append:
  "flattenMechanisms rt (xs @ ys) acc n fa w =
     (case flattenMechanisms rt xs acc n fa w of
        (Inl e, w') \<Rightarrow> (Inl e, w')
      | (Inr (Returned r, n'), w') \<Rightarrow> (Inr (Returned r, n'), w')
      | (Inr (Completed acc' fa', n'), w') \<Rightarrow> flattenMechanisms rt ys acc' n' fa' w')"
proof (induction xs arbitrary: acc n fa w)
  case Nil
  show ?case by simp
next
  case (Cons m ms)
  show ?case
    by (simp add: Cons.IH split: prod.splits sum.splits list.splits)
qed

lemma no_redirect_completes:
  "\<forall>m\<in>set ms. type m \<noteq> ''redirect'' \<Longrightarrow>
     \<exists>acc' n' w'. flattenMechanisms rt ms acc n fa w = (Inr (Completed acc' (ownAll ms fa), n'), w')"
proof (induction ms arbitrary: acc n fa w)
  case Nil
  show ?case by (simp add: ownAll_def)
next
  case (Cons m ms)
  then have nr: "\<forall>m\<in>set ms. type m \<noteq> ''redirect''" and m: "type m \<noteq> ''redirect''" by simp_all
  consider (v) "type m = ''v''"
    | (incl) "type m \<noteq> ''v''" "type m = ''include''"
    | (all) "type m \<noteq> ''v''" "type m \<noteq> ''include''" "type m = ''all''"
    | (other) "type m \<noteq> ''v''" "type m \<noteq> ''include''" "type m \<noteq> ''all''"
    by blast
  then show ?case
  proof cases
    case v
    with Cons.IH[OF nr, of acc n fa w] show ?thesis by (simp add: ownAll_def)
  next
    case incl
    obtain rs n1 w1 where r: "resolveSpfTxtRecord rt (value' m) n w = ((rs, n1), w1)"
      by (metis surj_pair)
    from flattenIncluded_Inr[OF r] obtain acc2 n2 w2 where
      f: "flattenIncluded rt rs (value' m) acc n1 w1 = (Inr (acc2, n2), w2)" by blast
    from Cons.IH[OF nr, of acc2 n2 fa w2] show ?thesis
      using incl m r f by (simp add: ownAll_def)
  next
    case all
    from Cons.IH[OF nr, of acc n "Some m" w] show ?thesis
      using all m by (auto simp: ownAll_def split: list.splits)
  next
    case other
    from Cons.IH[OF nr, of "acc @ [m]" n fa w] show ?thesis
      using other m by (simp add: ownAll_def)
  qed
qed

subsection \<open>Duplicate removal and the post-pass\<close>

lemma dedupLoop_acc: "dedupLoop xs u seen = u @ dedupLoop xs [] seen"
proof (induction xs arbitrary: u seen)
  case Nil
  show ?case by simp
next
  case (Cons x xs)
  show ?case
    using Cons.IH[of "u @ [x]" "insert x seen"] Cons.IH[of "[x]" "insert x seen"]
      Cons.IH[of u seen]
    by simp
qed

lemma dedupLoop_Cons:
  "dedupLoop (x # xs) [] seen =
     (if x \<in> seen then dedupLoop xs [] seen else x # dedupLoop xs [] (insert x seen))"
  using dedupLoop_acc[of xs "[x]" "insert x seen"] by simp

lemma dedupLoop_first_occurrences:
  "dedupLoop xs [] seen =
     map (nth xs) (filter (\<lambda>i. xs ! i \<notin> seen \<union> set (take i xs)) [0..<length xs])"
proof (induction xs arbitrary: seen)
  case Nil
  show ?case by simp
next
  case (Cons x xs)
  have upt: "[0..<Suc (length xs)] = 0 # map Suc [0..<length xs]"
    by (simp add: upt_conv_Cons map_Suc_upt del: upt_Suc)
  show ?case
  proof (cases "x \<in> seen")
    case True
    then have "(\<lambda>i. xs ! i \<notin> seen \<and> xs ! i \<noteq> x \<and> xs ! i \<notin> set (take i xs))
        = (\<lambda>i. xs ! i \<notin> seen \<and> xs ! i \<notin> set (take i xs))"
      by auto
    with True show ?thesis
      by (simp add: dedupLoop_Cons Cons.IH upt filter_map o_def del: upt_Suc dedupLoop.simps)
  next
    case False
    have "(\<lambda>i. xs ! i \<noteq> x \<and> xs ! i \<notin> seen \<and> xs ! i \<notin> set (take i xs))
        = (\<lambda>i. xs ! i \<notin> seen \<and> xs ! i \<noteq> x \<and> xs ! i \<notin> set (take i xs))"
      by auto
    with False show ?thesis
      by (simp add: dedupLoop_Cons Cons.IH upt filter_map o_def del: upt_Suc dedupLoop.simps)
  qed
qed

lemma dedupLoop_set: "set (dedupLoop xs [] seen) = set xs - seen"
  by (induction xs arbitrary: seen) (auto simp: dedupLoop_Cons simp del: dedupLoop.simps(2))

lemma dedupLoop_distinct: "distinct (dedupLoop xs [] seen)"
  by (induction xs arbitrary: seen)
     (auto simp: dedupLoop_Cons dedupLoop_set simp del: dedupLoop.simps(2))

lemma dedupLoop_distinct_id:
  "distinct xs \<Longrightarrow> set xs \<inter> seen = {} \<Longrightarrow> dedupLoop xs [] seen = xs"
  by (induction xs arbitrary: seen) (auto simp: dedupLoop_Cons simp del: dedupLoop.simps(2))

lemma dedupLoop_id_iff: "dedupLoop xs [] {} = xs \<longleftrightarrow> distinct xs"
  using dedupLoop_distinct[of xs "{}"] dedupLoop_distinct_id[of xs "{}"] by auto

lemma postPass_None: "postPass acc None = dedupLoop acc [] {}"
  by (simp add: postPass_def)

subsection \<open>The lookup budget\<close>

lemma lookups_step_refl: "lookups_step n w n w"
  by (simp add: lookups_step_def)

lemma lookups_step_trans:
  "lookups_step n w n1 w1 \<Longrightarrow> lookups_step n1 w1 n2 w2 \<Longrightarrow> lookups_step n w n2 w2"
  by (auto simp: lookups_step_def)

lemma resolveSpfTxtRecord_step:
  "resolveSpfTxtRecord rt h n w = ((rs, n'), w') \<Longrightarrow> lookups_step n w n' w'"
  by (auto simp: resolveSpfTxtRecord_def lookups_step_def MAX_DNS_LOOKUPS_def
      split: if_splits prod.splits sum.splits)

lemma flatten_step:
  "recursiveFlattenSpf rt p d n w = (Inr (res, n'), w') \<Longrightarrow> lookups_step n w n' w'"
  "flattenMechanisms rt ms acc n fa w = (Inr (le, n'), w') \<Longrightarrow> lookups_step n w n' w'"
  "flattenIncluded rt rs h acc n w = (Inr (res, n'), w') \<Longrightarrow> lookups_step n w n' w'"
proof (induct arbitrary: res n' w' and le n' w' and res n' w'
    rule: recursiveFlattenSpf_flattenMechanisms_flattenIncluded.induct)
  case (1 rt parsedSpf domain currentDnsLookups w)
  from "1.prems" obtain le where
    "flattenMechanisms rt parsedSpf [] currentDnsLookups None w = (Inr (le, n'), w')"
    by (auto split: prod.splits sum.splits loop_end.splits)
  then show ?case by (rule "1.hyps")
next
  case (2 rt flattened dnsLookups finalAll w)
  then show ?case by (simp add: lookups_step_refl)
next
  case (3 rt m ms acc n fa w)
  note eq = "3.prems"
  consider (v) "type m = ''v''"
    | (redirect) "type m \<noteq> ''v''" "type m = ''redirect''"
    | (incl) "type m \<noteq> ''v''" "type m \<noteq> ''redirect''" "type m = ''include''"
    | (all) "type m \<noteq> ''v''" "type m \<noteq> ''redirect''" "type m \<noteq> ''include''"
        "type m = ''all''"
    | (other) "type m \<noteq> ''v''" "type m \<noteq> ''redirect''" "type m \<noteq> ''include''"
        "type m \<noteq> ''all''"
    by blast
  then show ?case
  proof cases
    case v
    with eq "3.hyps"(1) show ?thesis by simp
  next
    case redirect
    obtain rs n1 w1 where r: "resolveSpfTxtRecord rt (value' m) n w = ((rs, n1), w1)"
      by (metis surj_pair)
    note st1 = resolveSpfTxtRecord_step[OF r]
    show ?thesis
    proof (cases rs)
      case Nil
      with eq redirect r st1 show ?thesis by simp
    next
      case (Cons x xs)
      with eq redirect r obtain sub sf where
        p: "parseSpf x = Inr sub" and
        s: "recursiveFlattenSpf rt sub (value' m) n1 w1 = (Inr (sf, n'), w')"
        by (auto split: sum.splits prod.splits)
      from "3.hyps"(2)[OF redirect r[symmetric] refl Cons p s] st1
      show ?thesis by (blast intro: lookups_step_trans)
    qed
  next
    case incl
    obtain rs n1 w1 where r: "resolveSpfTxtRecord rt (value' m) n w = ((rs, n1), w1)"
      by (metis surj_pair)
    note st1 = resolveSpfTxtRecord_step[OF r]
    from eq incl r obtain acc2 n2 w2 where
      f: "flattenIncluded rt rs (value' m) acc n1 w1 = (Inr (acc2, n2), w2)" and
      g: "flattenMechanisms rt ms acc2 n2 fa w2 = (Inr (le, n'), w')"
      by (auto split: sum.splits prod.splits)
    from "3.hyps"(3)[OF incl r[symmetric] refl f]
      "3.hyps"(4)[OF incl r[symmetric] refl f[symmetric] refl refl g] st1
    show ?thesis by (blast intro: lookups_step_trans)
  next
    case all
    with eq "3.hyps"(5) show ?thesis by simp
  next
    case other
    with eq "3.hyps"(6) show ?thesis by simp
  qed
next
  case (4 rt host flattened n w)
  then show ?case by (simp add: lookups_step_refl)
next
  case (5 rt r rs host flattened n w)
  from "5.prems" obtain sub sf n1 w1 where
    p: "parseSpf r = Inr sub" and
    s: "recursiveFlattenSpf rt sub host n w = (Inr (sf, n1), w1)" and
    t: "flattenIncluded rt rs host (flattened @ filter (\<lambda>m. type m \<noteq> ''v'') sf) n1 w1
          = (Inr (res, n'), w')"
    by (auto split: sum.splits prod.splits)
  from "5.hyps"(1)[OF p s] "5.hyps"(2)[OF p s[symmetric] refl refl t]
  show ?case by (blast intro: lookups_step_trans)
qed


lemma recursiveFlattenSpf_Inr:
  "\<exists>res n' w'. recursiveFlattenSpf rt p d n w = (Inr (res, n'), w')"
  using not_isl_fstD[OF no_throw(1)[of rt p d n w]] by auto

lemma flattenSpf_queries:
  "\<exists>qs. queries (snd (flattenSpf rt parsedSpf domain w)) = queries w @ qs
        \<and> length qs \<le> MAX_DNS_LOOKUPS"
proof -
  obtain res n' w' where r: "recursiveFlattenSpf rt parsedSpf domain 0 w = (Inr (res, n'), w')"
    using recursiveFlattenSpf_Inr by blast
  from flatten_step(1)[OF r] obtain qs where
    "queries w' = queries w @ qs" "length qs \<le> MAX_DNS_LOOKUPS"
    by (auto simp: lookups_step_def)
  moreover have "snd (flattenSpf rt parsedSpf domain w) = w'"
    using r by (simp add: flattenSpf_def split: option.splits)
  ultimately show ?thesis by auto
qed

lemma cyclic_queries:
  "queries (snd (flattenSpf (stubResolveTxt cyclicAnswers)
       [\<lparr>qualifier = ''+'', type = ''v'', value' = ''spf1''\<rparr>,
        \<lparr>qualifier = ''+'', type = ''include'', value' = ''a.example''\<rparr>]
       ''example.com'' freshWorld))
   = [''a.example'', ''b.example'', ''a.example'', ''b.example'', ''a.example'',
      ''b.example'', ''a.example'', ''b.example'', ''a.example'', ''b.example'']"
  by code_simp

text \<open>
  C1. \<open>resolveSpfTxtRecord\<close> compares the counter with the ceiling 10 before it calls
  the resolver: at or above the ceiling it returns no record and the same counter, and
  issues no query; below it, it issues one query and adds one. For every resolver, parsed
  record and world, one call of \<open>flattenSpf\<close> issues at most 10 queries.
\<close>

theorem flattenSpf_lookup_budget:
  "(MAX_DNS_LOOKUPS \<le> n \<longrightarrow>
      fst (resolveSpfTxtRecord rt h n w) = ([], n)
      \<and> queries (snd (resolveSpfTxtRecord rt h n w)) = queries w
      \<and> resolver (snd (resolveSpfTxtRecord rt h n w)) = resolver w)
   \<and> (n < MAX_DNS_LOOKUPS \<longrightarrow>
      snd (fst (resolveSpfTxtRecord rt h n w)) = n + 1
      \<and> queries (snd (resolveSpfTxtRecord rt h n w)) = queries w @ [h])
   \<and> MAX_DNS_LOOKUPS = 10
   \<and> (\<exists>qs. queries (snd (flattenSpf rt parsedSpf domain w)) = queries w @ qs
          \<and> length qs \<le> 10)"
proof -
  have "MAX_DNS_LOOKUPS \<le> n \<longrightarrow>
      fst (resolveSpfTxtRecord rt h n w) = ([], n)
      \<and> queries (snd (resolveSpfTxtRecord rt h n w)) = queries w
      \<and> resolver (snd (resolveSpfTxtRecord rt h n w)) = resolver w"
    by (simp add: resolveSpfTxtRecord_def)
  moreover have "n < MAX_DNS_LOOKUPS \<longrightarrow>
      snd (fst (resolveSpfTxtRecord rt h n w)) = n + 1
      \<and> queries (snd (resolveSpfTxtRecord rt h n w)) = queries w @ [h]"
    by (auto simp: resolveSpfTxtRecord_def split: prod.splits sum.splits)
  moreover have "MAX_DNS_LOOKUPS = 10" by (simp add: MAX_DNS_LOOKUPS_def)
  moreover have "\<exists>qs. queries (snd (flattenSpf rt parsedSpf domain w)) = queries w @ qs
          \<and> length qs \<le> 10"
    using flattenSpf_queries[of rt parsedSpf domain w] by (simp add: MAX_DNS_LOOKUPS_def)
  ultimately show ?thesis by blast
qed

theorem flattenSpf_lookup_budget_witness:
  "MAX_DNS_LOOKUPS \<le> 10
   \<and> fst (resolveSpfTxtRecord (stubResolveTxt cyclicAnswers) ''a.example'' 10 freshWorld) = ([], 10)
   \<and> queries (snd (resolveSpfTxtRecord (stubResolveTxt cyclicAnswers) ''a.example'' 10 freshWorld)) = []
   \<and> length (queries (snd (flattenSpf (stubResolveTxt cyclicAnswers)
       [\<lparr>qualifier = ''+'', type = ''v'', value' = ''spf1''\<rparr>,
        \<lparr>qualifier = ''+'', type = ''include'', value' = ''a.example''\<rparr>]
       ''example.com'' freshWorld))) \<le> 10"
proof -
  let ?rt = "stubResolveTxt cyclicAnswers"
  let ?p = "[\<lparr>qualifier = ''+'', type = ''v'', value' = ''spf1''\<rparr>,
        \<lparr>qualifier = ''+'', type = ''include'', value' = ''a.example''\<rparr>]"
  note t = flattenSpf_lookup_budget[of 10 ?rt "''a.example''" freshWorld ?p "''example.com''"]
  have m: "MAX_DNS_LOOKUPS \<le> 10" by (simp add: MAX_DNS_LOOKUPS_def)
  have q0: "queries freshWorld = []" by (simp add: freshWorld_def)
  from t m have "fst (resolveSpfTxtRecord ?rt ''a.example'' 10 freshWorld) = ([], 10)"
    and "queries (snd (resolveSpfTxtRecord ?rt ''a.example'' 10 freshWorld)) = queries freshWorld"
    by blast+
  moreover from t obtain qs where
    "queries (snd (flattenSpf ?rt ?p ''example.com'' freshWorld)) = queries freshWorld @ qs"
    "length qs \<le> 10" by blast
  then have "length (queries (snd (flattenSpf ?rt ?p ''example.com'' freshWorld))) \<le> 10"
    by (simp only: q0 append_Nil)
  ultimately show ?thesis using m q0 by simp
qed

subsection \<open>Precedence of the all mechanism\<close>

lemma level_result:
  assumes "\<forall>m\<in>set parsedSpf. type m \<noteq> ''redirect''"
  shows "\<exists>acc n' w'.
      flattenMechanisms rt parsedSpf [] n None w
        = (Inr (Completed acc (ownAll parsedSpf None), n'), w')
    \<and> recursiveFlattenSpf rt parsedSpf domain n w
        = (Inr (postPass acc (ownAll parsedSpf None), n'), w')"
proof -
  from no_redirect_completes[OF assms, of rt "[]" n None w] obtain acc n' w' where
    l: "flattenMechanisms rt parsedSpf [] n None w
        = (Inr (Completed acc (ownAll parsedSpf None), n'), w')" by blast
  then have "recursiveFlattenSpf rt parsedSpf domain n w
        = (Inr (postPass acc (ownAll parsedSpf None), n'), w')" by simp
  with l show ?thesis by blast
qed



subsection \<open>Deduplication at a level\<close>

lemma duplicate_removed_example:
  "flattenRecord (stubResolveTxt [(''included.com'', Inr [[''v=spf1 ip4:1.2.3.4'']])])
      ''v=spf1 ip4:1.2.3.4 include:included.com ~all'' ''example.com'' freshWorld
     = (Inr [mech ''+'' ''v'' ''spf1'', mech ''+'' ''ip4'' ''1.2.3.4'', mech ''~'' ''all'' ''all''],
        \<lparr>resolver = (), queries = [''included.com''], console = []\<rparr>)"
  by code_simp

text \<open>
  C8. A level that processes all its mechanisms (its record holds no redirect) returns the
  post-pass of its accumulator. The post-pass keeps the element at index \<open>i\<close> exactly when
  no earlier element is equal to it, in the order of the accumulator, and two mechanisms are
  equal exactly when qualifier, type and value are; the level's own all is then appended.
  Flattening \<^verbatim>\<open>v=spf1 ip4:1.2.3.4 include:included.com ~all\<close>, where the included record
  is \<^verbatim>\<open>v=spf1 ip4:1.2.3.4\<close>, gives one \<^verbatim>\<open>ip4:1.2.3.4\<close> and issues one query.
\<close>

theorem level_deduplicates:
  assumes "\<forall>m\<in>set parsedSpf. type m \<noteq> ''redirect''"
  shows "(\<exists>acc n' w'.
      flattenMechanisms rt parsedSpf [] n None w
        = (Inr (Completed acc (ownAll parsedSpf None), n'), w')
    \<and> recursiveFlattenSpf rt parsedSpf domain n w
        = (Inr (postPass acc (ownAll parsedSpf None), n'), w')
    \<and> postPass acc None
        = map (nth acc) (filter (\<lambda>i. acc ! i \<notin> set (take i acc)) [0..<length acc])
    \<and> (case ownAll parsedSpf None of
          None \<Rightarrow> True
        | Some a \<Rightarrow> postPass acc (Some a)
            = filter (\<lambda>m. type m \<noteq> ''all'') (postPass acc None) @ [a]))
    \<and> (((m1::mechanism) = m2) = (qualifier m1 = qualifier m2 \<and> type m1 = type m2 \<and> value' m1 = value' m2))
    \<and> flattenRecord (stubResolveTxt [(''included.com'', Inr [[''v=spf1 ip4:1.2.3.4'']])])
         ''v=spf1 ip4:1.2.3.4 include:included.com ~all'' ''example.com'' freshWorld
       = (Inr [mech ''+'' ''v'' ''spf1'', mech ''+'' ''ip4'' ''1.2.3.4'',
               mech ''~'' ''all'' ''all''],
          \<lparr>resolver = (), queries = [''included.com''], console = []\<rparr>)"
proof -
  from level_result[OF assms, of rt n w domain] obtain acc n' w' where
    l: "flattenMechanisms rt parsedSpf [] n None w
        = (Inr (Completed acc (ownAll parsedSpf None), n'), w')" and
    r: "recursiveFlattenSpf rt parsedSpf domain n w
        = (Inr (postPass acc (ownAll parsedSpf None), n'), w')" by blast
  have d: "postPass acc None
        = map (nth acc) (filter (\<lambda>i. acc ! i \<notin> set (take i acc)) [0..<length acc])"
    using dedupLoop_first_occurrences[of acc "{}"] by (simp add: postPass_None)
  have a: "(case ownAll parsedSpf None of
          None \<Rightarrow> True
        | Some a \<Rightarrow> postPass acc (Some a)
            = filter (\<lambda>m. type m \<noteq> ''all'') (postPass acc None) @ [a])"
    by (simp add: postPass_def split: option.splits)
  have e: "((m1::mechanism) = m2) = (qualifier m1 = qualifier m2 \<and> type m1 = type m2 \<and> value' m1 = value' m2)"
    by auto
  from l r d a have "\<exists>acc n' w'.
      flattenMechanisms rt parsedSpf [] n None w
        = (Inr (Completed acc (ownAll parsedSpf None), n'), w')
    \<and> recursiveFlattenSpf rt parsedSpf domain n w
        = (Inr (postPass acc (ownAll parsedSpf None), n'), w')
    \<and> postPass acc None
        = map (nth acc) (filter (\<lambda>i. acc ! i \<notin> set (take i acc)) [0..<length acc])
    \<and> (case ownAll parsedSpf None of
          None \<Rightarrow> True
        | Some a \<Rightarrow> postPass acc (Some a)
            = filter (\<lambda>m. type m \<noteq> ''all'') (postPass acc None) @ [a])"
    by blast
  with e duplicate_removed_example show ?thesis by blast
qed

text \<open>The theorem at the parsed record of the example.\<close>

theorem level_deduplicates_witness:
  "list_all (\<lambda>m. type m \<noteq> ''redirect'')
      [mech ''+'' ''v'' ''spf1'', mech ''+'' ''ip4'' ''1.2.3.4'',
       mech ''+'' ''include'' ''included.com'', mech ''~'' ''all'' ''all'']
   \<and> (\<exists>acc n' w'.
        recursiveFlattenSpf
          (stubResolveTxt [(''included.com'', Inr [[''v=spf1 ip4:1.2.3.4'']])])
          [mech ''+'' ''v'' ''spf1'', mech ''+'' ''ip4'' ''1.2.3.4'',
           mech ''+'' ''include'' ''included.com'', mech ''~'' ''all'' ''all'']
          ''example.com'' 0 freshWorld
        = (Inr (filter (\<lambda>m. type m \<noteq> ''all'')
                  (map (nth acc) (filter (\<lambda>i. acc ! i \<notin> set (take i acc)) [0..<length acc]))
                @ [mech ''~'' ''all'' ''all''], n'), w'))"
proof -
  let ?P = "[mech ''+'' ''v'' ''spf1'', mech ''+'' ''ip4'' ''1.2.3.4'',
           mech ''+'' ''include'' ''included.com'', mech ''~'' ''all'' ''all'']"
  let ?rt = "stubResolveTxt [(''included.com'', Inr [[''v=spf1 ip4:1.2.3.4'']])]"
  have h: "\<forall>m\<in>set ?P. type m \<noteq> ''redirect''" by simp
  have la: "list_all (\<lambda>m. type m \<noteq> ''redirect'') ?P" by simp
  have o: "ownAll ?P None = Some (mech ''~'' ''all'' ''all'')" by (simp add: ownAll_def)
  from level_deduplicates[OF h, of ?rt 0 freshWorld "''example.com''"]
  obtain acc n' w' where
    r: "recursiveFlattenSpf ?rt ?P ''example.com'' 0 freshWorld
        = (Inr (postPass acc (ownAll ?P None), n'), w')" and
    d: "postPass acc None
        = map (nth acc) (filter (\<lambda>i. acc ! i \<notin> set (take i acc)) [0..<length acc])" and
    a: "(case ownAll ?P None of
          None \<Rightarrow> True
        | Some a \<Rightarrow> postPass acc (Some a)
            = filter (\<lambda>m. type m \<noteq> ''all'') (postPass acc None) @ [a])"
    by blast
  from a have "postPass acc (Some (mech ''~'' ''all'' ''all''))
      = filter (\<lambda>m. type m \<noteq> ''all'') (postPass acc None) @ [mech ''~'' ''all'' ''all'']"
    by (simp only: o option.case)
  with r d have "recursiveFlattenSpf ?rt ?P ''example.com'' 0 freshWorld
        = (Inr (filter (\<lambda>m. type m \<noteq> ''all'')
                  (map (nth acc) (filter (\<lambda>i. acc ! i \<notin> set (take i acc)) [0..<length acc]))
                @ [mech ''~'' ''all'' ''all''], n'), w')"
    by (simp only: o)
  with la show ?thesis by blast
qed

subsection \<open>Distinct all mechanisms from different branches\<close>

text \<open>
  C9. An outer record with no all mechanism includes two records that end in \<^verbatim>\<open>-all\<close>
  and in \<^verbatim>\<open>~all\<close>: the flattened list holds two mechanisms of type all, and the first of
  them is followed by an \<^verbatim>\<open>ip4\<close> mechanism.
\<close>

theorem distinct_alls_coexist:
  "parseSpf ''v=spf1 include:inc1.com include:inc2.com''
     = Inr [mech ''+'' ''v'' ''spf1'', mech ''+'' ''include'' ''inc1.com'',
            mech ''+'' ''include'' ''inc2.com'']
   \<and> filter (\<lambda>m. type m = ''all'')
        [mech ''+'' ''v'' ''spf1'', mech ''+'' ''include'' ''inc1.com'',
         mech ''+'' ''include'' ''inc2.com''] = []
   \<and> fst (flattenSpf
        (stubResolveTxt [(''inc1.com'', Inr [[''v=spf1 ip4:1.1.1.1 -all'']]),
                         (''inc2.com'', Inr [[''v=spf1 ip4:2.2.2.2 ~all'']])])
        [mech ''+'' ''v'' ''spf1'', mech ''+'' ''include'' ''inc1.com'',
         mech ''+'' ''include'' ''inc2.com''] ''example.com'' freshWorld)
     = Inr [mech ''+'' ''v'' ''spf1'', mech ''+'' ''ip4'' ''1.1.1.1'', mech ''-'' ''all'' ''all'',
            mech ''+'' ''ip4'' ''2.2.2.2'', mech ''~'' ''all'' ''all'']
   \<and> length (filter (\<lambda>m. type m = ''all'')
        [mech ''+'' ''v'' ''spf1'', mech ''+'' ''ip4'' ''1.1.1.1'', mech ''-'' ''all'' ''all'',
         mech ''+'' ''ip4'' ''2.2.2.2'', mech ''~'' ''all'' ''all'']) = 2
   \<and> type ([mech ''+'' ''v'' ''spf1'', mech ''+'' ''ip4'' ''1.1.1.1'', mech ''-'' ''all'' ''all'',
         mech ''+'' ''ip4'' ''2.2.2.2'', mech ''~'' ''all'' ''all''] ! 2) = ''all''
   \<and> type ([mech ''+'' ''v'' ''spf1'', mech ''+'' ''ip4'' ''1.1.1.1'', mech ''-'' ''all'' ''all'',
         mech ''+'' ''ip4'' ''2.2.2.2'', mech ''~'' ''all'' ''all''] ! 3) = ''ip4''"
  by code_simp

subsection \<open>Redirect\<close>

lemma redirect_reached:
  assumes nr: "\<forall>m\<in>set pre. type m \<noteq> ''redirect''"
    and pre: "recursiveFlattenSpf rt pre domain n w = (Inr (discarded, n1), w1)"
  shows "\<exists>acc fa. flattenMechanisms rt (pre @ ms) [] n None w = flattenMechanisms rt ms acc n1 fa w1"
proof -
  from no_redirect_completes[OF nr, of rt "[]" n None w] obtain acc n' w' where
    l: "flattenMechanisms rt pre [] n None w = (Inr (Completed acc (ownAll pre None), n'), w')"
    by blast
  with pre have "n' = n1" "w' = w1" by simp_all
  with l show ?thesis by (auto simp: flattenMechanisms_append)
qed

lemma redirect_ignores_state:
  assumes "type m = ''redirect''"
  shows "flattenMechanisms rt (m # post) acc n fa w = flattenMechanisms rt [m] [] n None w"
  using assms by simp

lemma redirect_level:
  assumes nr: "\<forall>m\<in>set pre. type m \<noteq> ''redirect''"
    and m: "type m = ''redirect''"
    and pre: "recursiveFlattenSpf rt pre domain n w = (Inr (discarded, n1), w1)"
  shows "recursiveFlattenSpf rt (pre @ m # post) domain n w
           = recursiveFlattenSpf rt [m] domain' n1 w1"
proof -
  from redirect_reached[OF nr pre, of "m # post"] obtain acc fa where
    "flattenMechanisms rt (pre @ m # post) [] n None w
       = flattenMechanisms rt (m # post) acc n1 fa w1" by blast
  also have "\<dots> = flattenMechanisms rt [m] [] n1 None w1"
    by (rule redirect_ignores_state[OF m])
  finally show ?thesis by (simp del: flattenMechanisms.simps)
qed

lemma redirect_unresolved:
  assumes m: "type m = ''redirect''"
    and r: "resolveSpfTxtRecord rt (value' m) n w = (([], n2), w2)"
  shows "recursiveFlattenSpf rt [m] domain n w = (Inr ([], n2), w2)"
  using m r by simp

lemma redirect_resolved:
  assumes m: "type m = ''redirect''"
    and r: "resolveSpfTxtRecord rt (value' m) n w = ((r # rs, n2), w2)"
  shows "\<exists>sub. parseSpf r = Inr sub \<and> n2 = n + 1
           \<and> recursiveFlattenSpf rt [m] domain n w = recursiveFlattenSpf rt sub (value' m) n2 w2"
proof -
  from r have "r \<noteq> []" by (auto dest: resolveSpfTxtRecord_nonempty)
  then obtain sub where p: "parseSpf r = Inr sub" by (auto dest: parseSpf_Inr)
  obtain sf n3 w3 where s: "recursiveFlattenSpf rt sub (value' m) n2 w2 = (Inr (sf, n3), w3)"
    using recursiveFlattenSpf_Inr by blast
  from resolveSpfTxtRecord_count[OF r] have "n2 = n + 1" by (auto split: if_splits)
  moreover have "recursiveFlattenSpf rt [m] domain n w = (Inr (sf, n3), w3)"
    using m r p s by simp
  ultimately show ?thesis using p s by simp
qed

lemma redirect_example:
  "flattenRecord (stubResolveTxt [(''redirected.com'', Inr [[''v=spf1 ip4:9.10.11.12 ?all'']])])
      ''v=spf1 redirect=redirected.com'' ''example.com'' freshWorld
     = (Inr [mech ''+'' ''v'' ''spf1'', mech ''+'' ''ip4'' ''9.10.11.12'', mech ''?'' ''all'' ''all''],
        \<lparr>resolver = (), queries = [''redirected.com''], console = []\<rparr>)"
  by code_simp

text \<open>
  C2. At the first redirect of a record, when its target resolves to at least one TXT record
  starting with \<^verbatim>\<open>v=spf1\<close>: the first such record parses, the counter passed on is the
  counter before the resolution plus one, and the level returns what the recursion into
  that record returns, whatever follows the redirect. Flattening
  \<^verbatim>\<open>v=spf1 redirect=redirected.com\<close> with the target \<^verbatim>\<open>v=spf1 ip4:9.10.11.12 ?all\<close>
  gives \<^verbatim>\<open>v=spf1\<close>, \<^verbatim>\<open>ip4:9.10.11.12\<close>, \<^verbatim>\<open>?all\<close>.
\<close>

theorem redirect_replaces_record:
  assumes "\<forall>m\<in>set pre. type m \<noteq> ''redirect''"
    and "type m = ''redirect''"
    and "recursiveFlattenSpf rt pre domain n w = (Inr (discarded, n1), w1)"
    and "resolveSpfTxtRecord rt (value' m) n1 w1 = ((r # rs, n2), w2)"
  shows "(\<exists>subParsedSpf. parseSpf r = Inr subParsedSpf \<and> n2 = n1 + 1
            \<and> recursiveFlattenSpf rt (pre @ m # post) domain n w
                = recursiveFlattenSpf rt subParsedSpf (value' m) n2 w2)
    \<and> flattenRecord
         (stubResolveTxt [(''redirected.com'', Inr [[''v=spf1 ip4:9.10.11.12 ?all'']])])
         ''v=spf1 redirect=redirected.com'' ''example.com'' freshWorld
       = (Inr [mech ''+'' ''v'' ''spf1'', mech ''+'' ''ip4'' ''9.10.11.12'',
               mech ''?'' ''all'' ''all''],
          \<lparr>resolver = (), queries = [''redirected.com''], console = []\<rparr>)"
proof -
  have "recursiveFlattenSpf rt (pre @ m # post) domain n w
          = recursiveFlattenSpf rt [m] domain n1 w1"
    by (rule redirect_level[OF assms(1-3)])
  with redirect_resolved[OF assms(2) assms(4), of domain] redirect_example
  show ?thesis by simp
qed

text \<open>
  The theorem at \<^verbatim>\<open>v=spf1 a redirect=redirected.com -all\<close>: the mechanism after the
  redirect is not processed.
\<close>

theorem redirect_replaces_record_witness:
  "list_all (\<lambda>m. type m \<noteq> ''redirect'') [mech ''+'' ''v'' ''spf1'', mech ''+'' ''a'' '''']
   \<and> type (mech ''+'' ''redirect'' ''redirected.com'') = ''redirect''
   \<and> recursiveFlattenSpf
        (stubResolveTxt [(''redirected.com'', Inr [[''v=spf1 ip4:9.10.11.12 ?all'']])])
        [mech ''+'' ''v'' ''spf1'', mech ''+'' ''a'' ''''] ''example.com'' 0 freshWorld
       = (Inr ([mech ''+'' ''a'' ''''], 0), freshWorld)
   \<and> resolveSpfTxtRecord
        (stubResolveTxt [(''redirected.com'', Inr [[''v=spf1 ip4:9.10.11.12 ?all'']])])
        ''redirected.com'' 0 freshWorld
       = (([''v=spf1 ip4:9.10.11.12 ?all''], 1),
          \<lparr>resolver = (), queries = [''redirected.com''], console = []\<rparr>)
   \<and> (\<exists>subParsedSpf. parseSpf ''v=spf1 ip4:9.10.11.12 ?all'' = Inr subParsedSpf
        \<and> recursiveFlattenSpf
            (stubResolveTxt [(''redirected.com'', Inr [[''v=spf1 ip4:9.10.11.12 ?all'']])])
            ([mech ''+'' ''v'' ''spf1'', mech ''+'' ''a'' '''']
               @ mech ''+'' ''redirect'' ''redirected.com'' # [mech ''-'' ''all'' ''all''])
            ''example.com'' 0 freshWorld
          = recursiveFlattenSpf
            (stubResolveTxt [(''redirected.com'', Inr [[''v=spf1 ip4:9.10.11.12 ?all'']])])
            subParsedSpf ''redirected.com'' 1
            \<lparr>resolver = (), queries = [''redirected.com''], console = []\<rparr>)"
proof -
  let ?rt = "stubResolveTxt [(''redirected.com'', Inr [[''v=spf1 ip4:9.10.11.12 ?all'']])]"
  let ?pre = "[mech ''+'' ''v'' ''spf1'', mech ''+'' ''a'' '''']"
  let ?m = "mech ''+'' ''redirect'' ''redirected.com''"
  have h1: "\<forall>m\<in>set ?pre. type m \<noteq> ''redirect''" by simp
  have l1: "list_all (\<lambda>m. type m \<noteq> ''redirect'') ?pre" by simp
  have h2: "type ?m = ''redirect''" by simp
  have h3: "recursiveFlattenSpf ?rt ?pre ''example.com'' 0 freshWorld
       = (Inr ([mech ''+'' ''a'' ''''], 0), freshWorld)" by code_simp
  have h4: "resolveSpfTxtRecord ?rt ''redirected.com'' 0 freshWorld
       = (([''v=spf1 ip4:9.10.11.12 ?all''], 1),
          \<lparr>resolver = (), queries = [''redirected.com''], console = []\<rparr>)" by code_simp
  have h4': "resolveSpfTxtRecord ?rt (value' ?m) 0 freshWorld
       = ((''v=spf1 ip4:9.10.11.12 ?all'' # [], 1),
          \<lparr>resolver = (), queries = [''redirected.com''], console = []\<rparr>)"
    using h4 by simp
  from redirect_replaces_record[OF h1 h2 h3 h4', of "[mech ''-'' ''all'' ''all'']"]
  have "\<exists>subParsedSpf. parseSpf ''v=spf1 ip4:9.10.11.12 ?all'' = Inr subParsedSpf
        \<and> recursiveFlattenSpf ?rt (?pre @ ?m # [mech ''-'' ''all'' ''all''])
            ''example.com'' 0 freshWorld
          = recursiveFlattenSpf ?rt subParsedSpf ''redirected.com'' 1
            \<lparr>resolver = (), queries = [''redirected.com''], console = []\<rparr>"
    by (elim conjE exE) (simp only: mechanism.simps, blast)
  with l1 h2 h3 h4 show ?thesis by blast
qed

lemma redirect_discards_example:
  "flattenRecord (stubResolveTxt [(''redirected.com'', Inr [[''v=spf1 ip4:9.10.11.12 ?all'']])])
      ''v=spf1 ip4:1.2.3.4 -all redirect=redirected.com'' ''example.com'' freshWorld
     = (Inr [mech ''+'' ''v'' ''spf1'', mech ''+'' ''ip4'' ''9.10.11.12'', mech ''?'' ''all'' ''all''],
        \<lparr>resolver = (), queries = [''redirected.com''], console = []\<rparr>)"
  by code_simp

lemma redirect_empty_example:
  "fst (flattenRecord (stubResolveTxt [(''redirected.com'', Inr [[''no spf here'']])])
      ''v=spf1 ip4:1.2.3.4 -all redirect=redirected.com'' ''example.com'' freshWorld)
     = Inr [mech ''+'' ''v'' ''spf1'']"
  by code_simp

text \<open>
  C10. At the first redirect of a record, what the level has accumulated before it, the
  all mechanism it has met included, is discarded with no post-pass: the level's result is
  the result of the recursion into the first record of the target when the target
  resolves, and the empty list with the counter after the resolution when it does not.
  Only the counter and the world that the mechanisms before the redirect leave behind
  enter the result.
\<close>

theorem redirect_discards_accumulator:
  assumes "\<forall>m\<in>set pre. type m \<noteq> ''redirect''"
    and "type m = ''redirect''"
    and "recursiveFlattenSpf rt pre domain n w = (Inr (discarded, n1), w1)"
  shows "recursiveFlattenSpf rt (pre @ m # post) domain n w
           = (case resolveSpfTxtRecord rt (value' m) n1 w1 of
                (([], n2), w2) \<Rightarrow> (Inr ([], n2), w2)
              | ((r # rs, n2), w2) \<Rightarrow>
                  (case parseSpf r of
                     Inl e \<Rightarrow> (Inl e, w2)
                   | Inr subParsedSpf \<Rightarrow> recursiveFlattenSpf rt subParsedSpf (value' m) n2 w2))
    \<and> flattenRecord
         (stubResolveTxt [(''redirected.com'', Inr [[''v=spf1 ip4:9.10.11.12 ?all'']])])
         ''v=spf1 ip4:1.2.3.4 -all redirect=redirected.com'' ''example.com'' freshWorld
       = (Inr [mech ''+'' ''v'' ''spf1'', mech ''+'' ''ip4'' ''9.10.11.12'',
               mech ''?'' ''all'' ''all''],
          \<lparr>resolver = (), queries = [''redirected.com''], console = []\<rparr>)
    \<and> fst (flattenRecord (stubResolveTxt [(''redirected.com'', Inr [[''no spf here'']])])
         ''v=spf1 ip4:1.2.3.4 -all redirect=redirected.com'' ''example.com'' freshWorld)
       = Inr [mech ''+'' ''v'' ''spf1'']"
proof -
  obtain recs n2 w2 where r: "resolveSpfTxtRecord rt (value' m) n1 w1 = ((recs, n2), w2)"
    by (metis surj_pair)
  have l: "recursiveFlattenSpf rt (pre @ m # post) domain n w
          = recursiveFlattenSpf rt [m] domain n1 w1"
    by (rule redirect_level[OF assms(1-3)])
  have "recursiveFlattenSpf rt [m] domain n1 w1
           = (case resolveSpfTxtRecord rt (value' m) n1 w1 of
                (([], n2), w2) \<Rightarrow> (Inr ([], n2), w2)
              | ((r # rs, n2), w2) \<Rightarrow>
                  (case parseSpf r of
                     Inl e \<Rightarrow> (Inl e, w2)
                   | Inr subParsedSpf \<Rightarrow> recursiveFlattenSpf rt subParsedSpf (value' m) n2 w2))"
  proof (cases recs)
    case Nil
    with r redirect_unresolved[OF assms(2), of rt n1 w1 n2 w2 domain] show ?thesis by simp
  next
    case (Cons x xs)
    with r redirect_resolved[OF assms(2), of rt n1 w1 x xs n2 w2 domain] show ?thesis
      by (auto simp del: recursiveFlattenSpf.simps)
  qed
  with l redirect_discards_example redirect_empty_example show ?thesis
    by (simp del: recursiveFlattenSpf.simps)
qed

text \<open>
  The theorem at \<^verbatim>\<open>v=spf1 ip4:1.2.3.4 -all redirect=redirected.com mx\<close>, the target
  without an SPF record.
\<close>

theorem redirect_discards_accumulator_witness:
  "list_all (\<lambda>m. type m \<noteq> ''redirect'')
      [mech ''+'' ''v'' ''spf1'', mech ''+'' ''ip4'' ''1.2.3.4'', mech ''-'' ''all'' ''all'']
   \<and> type (mech ''+'' ''redirect'' ''redirected.com'') = ''redirect''
   \<and> recursiveFlattenSpf (stubResolveTxt [(''redirected.com'', Inr [[''no spf here'']])])
        [mech ''+'' ''v'' ''spf1'', mech ''+'' ''ip4'' ''1.2.3.4'', mech ''-'' ''all'' ''all'']
        ''example.com'' 0 freshWorld
       = (Inr ([mech ''+'' ''ip4'' ''1.2.3.4'', mech ''-'' ''all'' ''all''], 0), freshWorld)
   \<and> recursiveFlattenSpf (stubResolveTxt [(''redirected.com'', Inr [[''no spf here'']])])
        ([mech ''+'' ''v'' ''spf1'', mech ''+'' ''ip4'' ''1.2.3.4'', mech ''-'' ''all'' ''all'']
           @ mech ''+'' ''redirect'' ''redirected.com'' # [mech ''+'' ''mx'' ''''])
        ''example.com'' 0 freshWorld
       = (Inr ([], 1), \<lparr>resolver = (), queries = [''redirected.com''], console = []\<rparr>)"
proof -
  let ?rt = "stubResolveTxt [(''redirected.com'', Inr [[''no spf here'']])]"
  let ?pre = "[mech ''+'' ''v'' ''spf1'', mech ''+'' ''ip4'' ''1.2.3.4'', mech ''-'' ''all'' ''all'']"
  let ?m = "mech ''+'' ''redirect'' ''redirected.com''"
  have h1: "\<forall>m\<in>set ?pre. type m \<noteq> ''redirect''" by simp
  have l1: "list_all (\<lambda>m. type m \<noteq> ''redirect'') ?pre" by simp
  have h2: "type ?m = ''redirect''" by simp
  have h3: "recursiveFlattenSpf ?rt ?pre ''example.com'' 0 freshWorld
       = (Inr ([mech ''+'' ''ip4'' ''1.2.3.4'', mech ''-'' ''all'' ''all''], 0), freshWorld)"
    by code_simp
  have h4: "resolveSpfTxtRecord ?rt (value' ?m) 0 freshWorld
       = (([], 1), \<lparr>resolver = (), queries = [''redirected.com''], console = []\<rparr>)"
    by code_simp
  from redirect_discards_accumulator[OF h1 h2 h3, of "[mech ''+'' ''mx'' '''']"]
  have "recursiveFlattenSpf ?rt (?pre @ ?m # [mech ''+'' ''mx'' '''']) ''example.com'' 0 freshWorld
       = (Inr ([], 1), \<lparr>resolver = (), queries = [''redirected.com''], console = []\<rparr>)"
    by (elim conjE) (simp only: h4 prod.case list.case)
  with l1 h2 h3 show ?thesis by blast
qed

subsection \<open>Lookup failures\<close>

lemma flattenSpf_Inr: "\<exists>res w'. flattenSpf rt parsedSpf domain w = (Inr res, w')"
proof -
  obtain res n' w' where "recursiveFlattenSpf rt parsedSpf domain 0 w = (Inr (res, n'), w')"
    using recursiveFlattenSpf_Inr by blast
  then show ?thesis by (simp add: flattenSpf_def split: option.splits)
qed

lemma lookup_error_example:
  "flattenRecord (stubResolveTxt [(''error.com'', Inl (DnsError None ''DNS lookup failed''))])
      ''v=spf1 include:error.com ~all'' ''example.com'' freshWorld
     = (Inr [mech ''+'' ''v'' ''spf1'', mech ''~'' ''all'' ''all''],
        \<lparr>resolver = (), queries = [''error.com''],
          console = [Err ''DNS TXT lookup failed for error.com:'' ''DNS lookup failed'']\<rparr>)"
  by code_simp

text \<open>
  C5. When the resolver rejects the query for a hostname (the counter being below the
  ceiling, so that the query is issued), \<open>resolveSpfTxtRecord\<close> returns no record and
  the counter plus one; the loop of \<open>recursiveFlattenSpf\<close> goes on with the mechanisms
  after the include, the accumulator unchanged; and \<open>flattenSpf\<close> never rejects,
  whatever the resolver does. Flattening \<^verbatim>\<open>v=spf1 include:error.com ~all\<close> with a failing
  lookup gives \<^verbatim>\<open>v=spf1\<close>, \<^verbatim>\<open>~all\<close>.
\<close>

theorem lookup_failure_absorbed:
  assumes "n < MAX_DNS_LOOKUPS"
    and "rt (resolver w) h = (Inl err, r')"
  shows "fst (resolveSpfTxtRecord rt h n w) = ([], n + 1)
    \<and> queries (snd (resolveSpfTxtRecord rt h n w)) = queries w @ [h]
    \<and> (type m = ''include'' \<and> value' m = h \<longrightarrow>
          flattenMechanisms rt (m # ms) acc n fa w
            = flattenMechanisms rt ms acc (n + 1) fa (snd (resolveSpfTxtRecord rt h n w)))
    \<and> (\<exists>res w'. flattenSpf rt parsedSpf domain w0 = (Inr res, w'))
    \<and> flattenRecord
         (stubResolveTxt [(''error.com'', Inl (DnsError None ''DNS lookup failed''))])
         ''v=spf1 include:error.com ~all'' ''example.com'' freshWorld
       = (Inr [mech ''+'' ''v'' ''spf1'', mech ''~'' ''all'' ''all''],
          \<lparr>resolver = (), queries = [''error.com''],
            console = [Err ''DNS TXT lookup failed for error.com:'' ''DNS lookup failed'']\<rparr>)"
proof -
  have r: "fst (resolveSpfTxtRecord rt h n w) = ([], n + 1)"
    "queries (snd (resolveSpfTxtRecord rt h n w)) = queries w @ [h]"
    using assms by (simp_all add: resolveSpfTxtRecord_def)
  have "type m = ''include'' \<and> value' m = h \<longrightarrow>
          flattenMechanisms rt (m # ms) acc n fa w
            = flattenMechanisms rt ms acc (n + 1) fa (snd (resolveSpfTxtRecord rt h n w))"
  proof (intro impI, elim conjE)
    assume m: "type m = ''include''" "value' m = h"
    obtain w1 where "resolveSpfTxtRecord rt h n w = (([], n + 1), w1)"
      using r(1) by (cases "resolveSpfTxtRecord rt h n w") auto
    with m show "flattenMechanisms rt (m # ms) acc n fa w
            = flattenMechanisms rt ms acc (n + 1) fa (snd (resolveSpfTxtRecord rt h n w))"
      by simp
  qed
  with r flattenSpf_Inr[of rt parsedSpf domain w0] lookup_error_example
  show ?thesis by blast
qed

text \<open>The theorem at the stub of the test, which rejects the query for error.com.\<close>

theorem lookup_failure_absorbed_witness:
  "(0::nat) < MAX_DNS_LOOKUPS
   \<and> stubResolveTxt [(''error.com'', Inl (DnsError None ''DNS lookup failed''))]
        (resolver freshWorld) ''error.com''
       = (Inl (DnsError None ''DNS lookup failed''), ())
   \<and> fst (resolveSpfTxtRecord
        (stubResolveTxt [(''error.com'', Inl (DnsError None ''DNS lookup failed''))])
        ''error.com'' 0 freshWorld) = ([], 0 + 1)
   \<and> queries (snd (resolveSpfTxtRecord
        (stubResolveTxt [(''error.com'', Inl (DnsError None ''DNS lookup failed''))])
        ''error.com'' 0 freshWorld)) = queries freshWorld @ [''error.com'']"
proof -
  let ?rt = "stubResolveTxt [(''error.com'', Inl (DnsError None ''DNS lookup failed''))]"
  have h1: "(0::nat) < MAX_DNS_LOOKUPS" by (simp add: MAX_DNS_LOOKUPS_def)
  have h2: "?rt (resolver freshWorld) ''error.com''
       = (Inl (DnsError None ''DNS lookup failed''), ())"
    by (simp add: stubResolveTxt_def)
  from lookup_failure_absorbed[where n = 0 and rt = ?rt and w = freshWorld
      and h = "''error.com''", OF h1 h2] h1 h2
  show ?thesis by blast
qed

subsection \<open>The version mechanism\<close>

lemma postPass_set: "set (postPass acc fa) \<subseteq> set acc \<union> set_option fa"
  by (auto simp: postPass_def Let_def dedupLoop_set split: option.splits)

lemma no_v:
  "recursiveFlattenSpf rt p d n w = (Inr (res, n'), w') \<Longrightarrow> \<forall>x\<in>set res. type x \<noteq> ''v''"
  "flattenMechanisms rt ms acc n fa w = (Inr (le, n'), w') \<Longrightarrow>
     \<forall>x\<in>set acc. type x \<noteq> ''v'' \<Longrightarrow> \<forall>x\<in>set_option fa. type x \<noteq> ''v'' \<Longrightarrow>
     (case le of
        Returned r \<Rightarrow> \<forall>x\<in>set r. type x \<noteq> ''v''
      | Completed acc' fa' \<Rightarrow>
          (\<forall>x\<in>set acc'. type x \<noteq> ''v'') \<and> (\<forall>x\<in>set_option fa'. type x \<noteq> ''v''))"
  "flattenIncluded rt rs h acc n w = (Inr (res, n'), w') \<Longrightarrow>
     \<forall>x\<in>set acc. type x \<noteq> ''v'' \<Longrightarrow> \<forall>x\<in>set res. type x \<noteq> ''v''"
proof (induct rt p d n w and rt ms acc n fa w and rt rs h acc n w
    arbitrary: res n' w' and le n' w' and res n' w'
    rule: recursiveFlattenSpf_flattenMechanisms_flattenIncluded.induct)
  case (1 rt parsedSpf domain currentDnsLookups w)
  from "1.prems" obtain le where
    l: "flattenMechanisms rt parsedSpf [] currentDnsLookups None w = (Inr (le, n'), w')"
    and res: "res = (case le of Returned s \<Rightarrow> s | Completed a f \<Rightarrow> postPass a f)"
    by (auto split: prod.splits sum.splits loop_end.splits)
  have h: "case le of
        Returned r \<Rightarrow> \<forall>x\<in>set r. type x \<noteq> ''v''
      | Completed acc' fa' \<Rightarrow>
          (\<forall>x\<in>set acc'. type x \<noteq> ''v'') \<and> (\<forall>x\<in>set_option fa'. type x \<noteq> ''v'')"
    by (rule "1.hyps"[OF l]) simp_all
  show ?case
  proof (cases le)
    case (Returned s)
    with h res show ?thesis by simp
  next
    case (Completed a f)
    with h have "\<forall>x\<in>set a. type x \<noteq> ''v''" "\<forall>x\<in>set_option f. type x \<noteq> ''v''"
      by simp_all
    moreover have "set res \<subseteq> set a \<union> set_option f"
      using res Completed postPass_set[of a f] by simp
    ultimately show ?thesis by blast
  qed
next
  case (2 rt flattened dnsLookups finalAll w)
  then show ?case by auto
next
  case (3 rt m ms acc n fa w)
  note eq = "3.prems"(1) and acc = "3.prems"(2) and fa = "3.prems"(3)
  consider (v) "type m = ''v''"
    | (redirect) "type m \<noteq> ''v''" "type m = ''redirect''"
    | (incl) "type m \<noteq> ''v''" "type m \<noteq> ''redirect''" "type m = ''include''"
    | (all) "type m \<noteq> ''v''" "type m \<noteq> ''redirect''" "type m \<noteq> ''include''"
        "type m = ''all''"
    | (other) "type m \<noteq> ''v''" "type m \<noteq> ''redirect''" "type m \<noteq> ''include''"
        "type m \<noteq> ''all''"
    by blast
  then show ?case
  proof cases
    case v
    with eq have "flattenMechanisms rt ms acc n fa w = (Inr (le, n'), w')" by simp
    from "3.hyps"(1)[OF v this acc fa] show ?thesis .
  next
    case redirect
    obtain rs n1 w1 where r: "resolveSpfTxtRecord rt (value' m) n w = ((rs, n1), w1)"
      by (metis surj_pair)
    show ?thesis
    proof (cases rs)
      case Nil
      with eq redirect r show ?thesis by auto
    next
      case (Cons x xs)
      with eq redirect r obtain sub sf where
        p: "parseSpf x = Inr sub" and
        s: "recursiveFlattenSpf rt sub (value' m) n1 w1 = (Inr (sf, n'), w')" and
        le: "le = Returned sf"
        by (auto split: sum.splits prod.splits)
      from "3.hyps"(2)[OF redirect r[symmetric] refl Cons p s] le
      show ?thesis by simp
    qed
  next
    case incl
    obtain rs n1 w1 where r: "resolveSpfTxtRecord rt (value' m) n w = ((rs, n1), w1)"
      by (metis surj_pair)
    from eq incl r obtain acc2 n2 w2 where
      f: "flattenIncluded rt rs (value' m) acc n1 w1 = (Inr (acc2, n2), w2)" and
      g: "flattenMechanisms rt ms acc2 n2 fa w2 = (Inr (le, n'), w')"
      by (auto split: sum.splits prod.splits)
    have "\<forall>x\<in>set acc2. type x \<noteq> ''v''"
      using "3.hyps"(3)[OF incl r[symmetric] refl f acc] .
    from "3.hyps"(4)[OF incl r[symmetric] refl f[symmetric] refl refl g this fa]
    show ?thesis .
  next
    case all
    with eq have "flattenMechanisms rt ms acc n (Some m) w = (Inr (le, n'), w')" by simp
    from "3.hyps"(5)[OF all this acc] all show ?thesis by simp
  next
    case other
    with eq have "flattenMechanisms rt ms (acc @ [m]) n fa w = (Inr (le, n'), w')" by simp
    from "3.hyps"(6)[OF other this _ fa] acc other show ?thesis by simp
  qed
next
  case (4 rt host flattened n w)
  then show ?case by auto
next
  case (5 rt r rs host flattened n w)
  from "5.prems"(1) obtain sub sf n1 w1 where
    p: "parseSpf r = Inr sub" and
    s: "recursiveFlattenSpf rt sub host n w = (Inr (sf, n1), w1)" and
    t: "flattenIncluded rt rs host (flattened @ filter (\<lambda>m. type m \<noteq> ''v'') sf) n1 w1
          = (Inr (res, n'), w')"
    by (auto split: sum.splits prod.splits)
  have nv: "\<forall>x\<in>set (flattened @ filter (\<lambda>m. type m \<noteq> ''v'') sf). type x \<noteq> ''v''"
    using "5.prems"(2) by auto
  show ?case by (rule "5.hyps"(2)[OF p s[symmetric] refl refl t nv])
qed

text \<open>
  C6, amended. No level returns a mechanism of type v. \<open>flattenSpf\<close> puts in front of
  the flattened list the first mechanism of the parsed record it was given that has type v
  and value \<^verbatim>\<open>spf1\<close>, when there is one, and nothing otherwise: a v mechanism with
  another value is dropped and not put back.
\<close>

theorem version_mechanism_reinstated:
  "(\<exists>res n' w'. recursiveFlattenSpf rt levelSpf levelDomain n w0 = (Inr (res, n'), w')
        \<and> list_all (\<lambda>m. type m \<noteq> ''v'') res)
   \<and> (\<exists>res n' w'. recursiveFlattenSpf rt parsedSpf domain 0 w = (Inr (res, n'), w')
        \<and> list_all (\<lambda>m. type m \<noteq> ''v'') res
        \<and> flattenSpf rt parsedSpf domain w
            = (Inr ((case find (\<lambda>mech. type mech = ''v'' \<and> value' mech = ''spf1'') parsedSpf of
                       Some vSpf1 \<Rightarrow> [vSpf1]
                     | None \<Rightarrow> []) @ res), w'))"
proof -
  obtain res1 n1 w1 where
    l: "recursiveFlattenSpf rt levelSpf levelDomain n w0 = (Inr (res1, n1), w1)"
    using recursiveFlattenSpf_Inr by blast
  from no_v(1)[OF l] have "list_all (\<lambda>m. type m \<noteq> ''v'') res1" by (simp add: list_all_iff)
  with l have a: "\<exists>res n' w'. recursiveFlattenSpf rt levelSpf levelDomain n w0 = (Inr (res, n'), w')
        \<and> list_all (\<lambda>m. type m \<noteq> ''v'') res" by blast
  obtain res n' w' where
    t: "recursiveFlattenSpf rt parsedSpf domain 0 w = (Inr (res, n'), w')"
    using recursiveFlattenSpf_Inr by blast
  from no_v(1)[OF t] have nv: "list_all (\<lambda>m. type m \<noteq> ''v'') res" by (simp add: list_all_iff)
  have "flattenSpf rt parsedSpf domain w
            = (Inr ((case find (\<lambda>mech. type mech = ''v'' \<and> value' mech = ''spf1'') parsedSpf of
                       Some vSpf1 \<Rightarrow> [vSpf1]
                     | None \<Rightarrow> []) @ res), w')"
    using t by (simp add: flattenSpf_def split: option.splits)
  with t nv a show ?thesis by blast
qed

text \<open>The theorem at the record \<^verbatim>\<open>v=spf1 include:included.com ~all\<close>.\<close>

theorem version_mechanism_reinstated_witness:
  "flattenSpf (stubResolveTxt [(''included.com'', Inr [[''v=spf1 ip4:5.6.7.8 -all'']])])
      [mech ''+'' ''v'' ''spf1'', mech ''+'' ''include'' ''included.com'', mech ''~'' ''all'' ''all'']
      ''example.com'' freshWorld
   = (Inr ([mech ''+'' ''v'' ''spf1''] @ [mech ''+'' ''ip4'' ''5.6.7.8'', mech ''~'' ''all'' ''all'']),
      \<lparr>resolver = (), queries = [''included.com''], console = []\<rparr>)"
proof -
  let ?rt = "stubResolveTxt [(''included.com'', Inr [[''v=spf1 ip4:5.6.7.8 -all'']])]"
  let ?P = "[mech ''+'' ''v'' ''spf1'', mech ''+'' ''include'' ''included.com'',
             mech ''~'' ''all'' ''all'']"
  have r: "recursiveFlattenSpf ?rt ?P ''example.com'' 0 freshWorld
      = (Inr ([mech ''+'' ''ip4'' ''5.6.7.8'', mech ''~'' ''all'' ''all''], 1),
         \<lparr>resolver = (), queries = [''included.com''], console = []\<rparr>)"
    by code_simp
  have f: "find (\<lambda>mech. type mech = ''v'' \<and> value' mech = ''spf1'') ?P
      = Some (mech ''+'' ''v'' ''spf1'')" by simp
  from version_mechanism_reinstated[of ?rt ?P "''example.com''" 0 freshWorld ?P "''example.com''"
      freshWorld]
  obtain res n' w' where
    "recursiveFlattenSpf ?rt ?P ''example.com'' 0 freshWorld = (Inr (res, n'), w')"
    "flattenSpf ?rt ?P ''example.com'' freshWorld
       = (Inr ((case find (\<lambda>mech. type mech = ''v'' \<and> value' mech = ''spf1'') ?P of
                  Some vSpf1 \<Rightarrow> [vSpf1] | None \<Rightarrow> []) @ res), w')"
    by blast
  then show ?thesis unfolding r f by (simp only: option.case prod.inject sum.inject)
qed

text \<open>
  C6 as stated fails for a record whose v mechanism has a value other than \<^verbatim>\<open>spf1\<close>,
  such as the TXT record \<^verbatim>\<open>v=spf10 a -all\<close>, which \<open>resolveSpfTxtRecord\<close> keeps: the
  flattened list holds no v mechanism.
\<close>

theorem version_mechanism_reinstated_counterexample:
  "startsWith ''v=spf10 a -all'' ''v=spf1''
   \<and> parseSpf ''v=spf10 a -all''
       = Inr [mech ''+'' ''v'' ''spf10'', mech ''+'' ''a'' '''', mech ''-'' ''all'' ''all'']
   \<and> type (mech ''+'' ''v'' ''spf10'') = ''v''
   \<and> flattenSpf (stubResolveTxt [])
        [mech ''+'' ''v'' ''spf10'', mech ''+'' ''a'' '''', mech ''-'' ''all'' ''all'']
        ''example.com'' freshWorld
       = (Inr [mech ''+'' ''a'' '''', mech ''-'' ''all'' ''all''], freshWorld)"
  by code_simp

subsection \<open>Records without include and redirect\<close>

lemma no_lookup_loop:
  "\<forall>m\<in>set ms. type m \<noteq> ''include'' \<and> type m \<noteq> ''redirect'' \<Longrightarrow>
     flattenMechanisms rt ms acc n fa w
       = (Inr (Completed (acc @ filter (\<lambda>m. type m \<noteq> ''v'' \<and> type m \<noteq> ''all'') ms)
                 (ownAll ms fa), n), w)"
proof (induction ms arbitrary: acc fa)
  case Nil
  show ?case by (simp add: ownAll_def)
next
  case (Cons m ms)
  then have IH: "\<And>acc fa. flattenMechanisms rt ms acc n fa w
       = (Inr (Completed (acc @ filter (\<lambda>m. type m \<noteq> ''v'' \<and> type m \<noteq> ''all'') ms)
                 (ownAll ms fa), n), w)"
    and m: "type m \<noteq> ''include''" "type m \<noteq> ''redirect''" by simp_all
  show ?case
    using m by (auto simp: IH ownAll_def split: list.splits)
qed

lemma no_lookup_level:
  assumes "\<forall>m\<in>set parsedSpf. type m \<noteq> ''include'' \<and> type m \<noteq> ''redirect''"
  shows "recursiveFlattenSpf rt parsedSpf domain n w
       = (Inr (postPass (filter (\<lambda>m. type m \<noteq> ''v'' \<and> type m \<noteq> ''all'') parsedSpf)
                 (ownAll parsedSpf None), n), w)"
  using no_lookup_loop[OF assms, of rt "[]" n None w] by simp

lemma ownAll_type: "ownAll ms None = Some a \<Longrightarrow> type a = ''all''"
proof -
  assume a: "ownAll ms None = Some a"
  then have ne: "filter (\<lambda>m. type m = ''all'') ms \<noteq> []"
    and "a = last (filter (\<lambda>m. type m = ''all'') ms)"
    by (auto simp: ownAll_def split: list.splits)
  then have "a \<in> set (filter (\<lambda>m. type m = ''all'') ms)" using last_in_set by metis
  then show ?thesis by simp
qed

lemma find_vSpf1_type:
  "find (\<lambda>mech. type mech = ''v'' \<and> value' mech = ''spf1'') ms = Some v \<Longrightarrow> type v = ''v''"
  by (auto simp: find_Some_iff)

lemma postPass_body:
  assumes "\<forall>m\<in>set body. type m \<noteq> ''all''"
  shows "postPass body oa = dedupLoop body [] {} @ (case oa of Some a \<Rightarrow> [a] | None \<Rightarrow> [])"
proof -
  have "\<forall>m\<in>set (dedupLoop body [] {}). type m \<noteq> ''all''"
    using assms by (simp add: dedupLoop_set)
  then have "filter (\<lambda>m. type m \<noteq> ''all'') (dedupLoop body [] {}) = dedupLoop body [] {}"
    by (simp add: filter_id_conv)
  then show ?thesis by (simp add: postPass_def split: option.splits)
qed

lemma flatten_no_lookup:
  assumes "\<forall>m\<in>set parsedSpf. type m \<noteq> ''include'' \<and> type m \<noteq> ''redirect''"
  shows "flattenSpf rt parsedSpf domain w
       = (Inr ((case find (\<lambda>mech. type mech = ''v'' \<and> value' mech = ''spf1'') parsedSpf of
                  Some vSpf1 \<Rightarrow> [vSpf1] | None \<Rightarrow> [])
               @ dedupLoop (filter (\<lambda>m. type m \<noteq> ''v'' \<and> type m \<noteq> ''all'') parsedSpf) [] {}
               @ (case ownAll parsedSpf None of Some a \<Rightarrow> [a] | None \<Rightarrow> [])), w)"
proof -
  have "\<forall>m\<in>set (filter (\<lambda>m. type m \<noteq> ''v'' \<and> type m \<noteq> ''all'') parsedSpf). type m \<noteq> ''all''"
    by simp
  from postPass_body[OF this] no_lookup_level[OF assms, of rt domain 0 w]
  show ?thesis by (simp add: flattenSpf_def split: option.splits)
qed

lemma flatten_identity_iff:
  assumes "\<forall>m\<in>set parsedSpf. type m \<noteq> ''include'' \<and> type m \<noteq> ''redirect''"
  shows "(fst (flattenSpf rt parsedSpf domain w) = Inr parsedSpf) = canonicalRecord parsedSpf"
proof -
  let ?body = "filter (\<lambda>m. type m \<noteq> ''v'' \<and> type m \<noteq> ''all'') parsedSpf"
  let ?vs = "case find (\<lambda>mech. type mech = ''v'' \<and> value' mech = ''spf1'') parsedSpf of
                  Some vSpf1 \<Rightarrow> [vSpf1] | None \<Rightarrow> []"
  let ?as = "case ownAll parsedSpf None of Some a \<Rightarrow> [a] | None \<Rightarrow> []"
  let ?D = "dedupLoop ?body [] {}"
  have res: "fst (flattenSpf rt parsedSpf domain w) = Inr (?vs @ ?D @ ?as)"
    using flatten_no_lookup[OF assms, of rt domain w] by simp
  have fv: "filter (\<lambda>m. type m \<noteq> ''v'' \<and> type m \<noteq> ''all'') ?vs = []"
    by (auto split: option.splits dest: find_vSpf1_type)
  have fa: "filter (\<lambda>m. type m \<noteq> ''v'' \<and> type m \<noteq> ''all'') ?as = []"
    by (auto split: option.splits dest: ownAll_type)
  have fd: "filter (\<lambda>m. type m \<noteq> ''v'' \<and> type m \<noteq> ''all'') ?D = ?D"
    by (simp add: filter_id_conv dedupLoop_set)
  show ?thesis
  proof
    assume "fst (flattenSpf rt parsedSpf domain w) = Inr parsedSpf"
    with res have P: "parsedSpf = ?vs @ ?D @ ?as" by simp
    have "?body = filter (\<lambda>m. type m \<noteq> ''v'' \<and> type m \<noteq> ''all'') (?vs @ ?D @ ?as)"
      using P by simp
    also have "\<dots> = ?D" unfolding filter_append fv fa fd by simp
    finally have b: "?D = ?body" by simp
    then have "distinct ?body" using dedupLoop_id_iff by blast
    moreover from P b have "parsedSpf = ?vs @ ?body @ ?as" by simp
    ultimately show "canonicalRecord parsedSpf" by (simp add: canonicalRecord_def Let_def)
  next
    assume "canonicalRecord parsedSpf"
    then have d: "distinct ?body" and P: "parsedSpf = ?vs @ ?body @ ?as"
      by (simp_all add: canonicalRecord_def Let_def)
    from d have "?D = ?body" using dedupLoop_id_iff by blast
    with res P show "fst (flattenSpf rt parsedSpf domain w) = Inr parsedSpf" by simp
  qed
qed

text \<open>
  C4, amended. For every record string whose parse holds no include and no redirect,
  flattening issues no DNS lookup: the recursive step returns the initial counter 0 and
  the world is unchanged. The flattened list equals the parse exactly when the parse is in
  canonical form: at most one mechanism of type v, which is \<^verbatim>\<open>v=spf1\<close> in first position;
  at most one mechanism of type all, in last position; the other mechanisms pairwise
  distinct.
\<close>

theorem flatten_without_lookups:
  assumes "parseSpf spfRecord = Inr parsedSpf"
    and "\<forall>m\<in>set parsedSpf. type m \<noteq> ''include'' \<and> type m \<noteq> ''redirect''"
  shows "(\<exists>res. recursiveFlattenSpf rt parsedSpf domain 0 w = (Inr (res, 0), w))
    \<and> snd (flattenSpf rt parsedSpf domain w) = w
    \<and> (fst (flattenSpf rt parsedSpf domain w) = Inr parsedSpf) = canonicalRecord parsedSpf"
proof -
  have "\<exists>res. recursiveFlattenSpf rt parsedSpf domain 0 w = (Inr (res, 0), w)"
    using no_lookup_level[OF assms(2), of rt domain 0 w] by blast
  moreover have "snd (flattenSpf rt parsedSpf domain w) = w"
    using flatten_no_lookup[OF assms(2), of rt domain w] by simp
  ultimately show ?thesis using flatten_identity_iff[OF assms(2), of rt domain w] by blast
qed

text \<open>The theorem at the record \<^verbatim>\<open>v=spf1 ip4:1.2.3.4 ~all\<close> of the test suite.\<close>

theorem flatten_without_lookups_witness:
  "parseSpf ''v=spf1 ip4:1.2.3.4 ~all''
     = Inr [mech ''+'' ''v'' ''spf1'', mech ''+'' ''ip4'' ''1.2.3.4'', mech ''~'' ''all'' ''all'']
   \<and> list_all (\<lambda>m. type m \<noteq> ''include'' \<and> type m \<noteq> ''redirect'')
        [mech ''+'' ''v'' ''spf1'', mech ''+'' ''ip4'' ''1.2.3.4'', mech ''~'' ''all'' ''all'']
   \<and> canonicalRecord
        [mech ''+'' ''v'' ''spf1'', mech ''+'' ''ip4'' ''1.2.3.4'', mech ''~'' ''all'' ''all'']
   \<and> flattenSpf (stubResolveTxt [])
        [mech ''+'' ''v'' ''spf1'', mech ''+'' ''ip4'' ''1.2.3.4'', mech ''~'' ''all'' ''all'']
        ''example.com'' freshWorld
       = (Inr [mech ''+'' ''v'' ''spf1'', mech ''+'' ''ip4'' ''1.2.3.4'',
               mech ''~'' ''all'' ''all''], freshWorld)"
proof -
  let ?P = "[mech ''+'' ''v'' ''spf1'', mech ''+'' ''ip4'' ''1.2.3.4'', mech ''~'' ''all'' ''all'']"
  have h1: "parseSpf ''v=spf1 ip4:1.2.3.4 ~all'' = Inr ?P" by code_simp
  have h2: "\<forall>m\<in>set ?P. type m \<noteq> ''include'' \<and> type m \<noteq> ''redirect''" by simp
  have l2: "list_all (\<lambda>m. type m \<noteq> ''include'' \<and> type m \<noteq> ''redirect'') ?P" by simp
  have c: "canonicalRecord ?P" by code_simp
  from flatten_without_lookups[OF h1 h2, of "stubResolveTxt []" "''example.com''" freshWorld] c
  have "fst (flattenSpf (stubResolveTxt []) ?P ''example.com'' freshWorld) = Inr ?P"
    and "snd (flattenSpf (stubResolveTxt []) ?P ''example.com'' freshWorld) = freshWorld"
    by blast+
  then have "flattenSpf (stubResolveTxt []) ?P ''example.com'' freshWorld = (Inr ?P, freshWorld)"
    by (metis prod.collapse)
  with h1 l2 c show ?thesis by blast
qed

text \<open>
  C4 as stated fails for a record with a repeated mechanism, which the post-pass removes,
  and for a record whose all is not last, which the post-pass moves to the end.
\<close>

theorem flatten_without_lookups_counterexample:
  "parseSpf ''v=spf1 a a''
     = Inr [mech ''+'' ''v'' ''spf1'', mech ''+'' ''a'' '''', mech ''+'' ''a'' '''']
   \<and> list_all (\<lambda>m. type m \<noteq> ''include'' \<and> type m \<noteq> ''redirect'')
        [mech ''+'' ''v'' ''spf1'', mech ''+'' ''a'' '''', mech ''+'' ''a'' '''']
   \<and> fst (flattenSpf (stubResolveTxt [])
        [mech ''+'' ''v'' ''spf1'', mech ''+'' ''a'' '''', mech ''+'' ''a'' '''']
        ''example.com'' freshWorld)
       = Inr [mech ''+'' ''v'' ''spf1'', mech ''+'' ''a'' '''']
   \<and> parseSpf ''v=spf1 -all a''
     = Inr [mech ''+'' ''v'' ''spf1'', mech ''-'' ''all'' ''all'', mech ''+'' ''a'' '''']
   \<and> fst (flattenSpf (stubResolveTxt [])
        [mech ''+'' ''v'' ''spf1'', mech ''-'' ''all'' ''all'', mech ''+'' ''a'' '''']
        ''example.com'' freshWorld)
       = Inr [mech ''+'' ''v'' ''spf1'', mech ''+'' ''a'' '''', mech ''-'' ''all'' ''all'']"
  by code_simp

subsection \<open>The parser\<close>

lemma split_nonempty: "split sep s \<noteq> []"
  by (induction s) (auto split: list.splits)

lemma split_length: "(sep \<in> set s) = (1 < length (split sep s))"
  by (induction s) (auto simp: split_nonempty split: list.splits)

lemma split_Cons_other:
  "c \<noteq> sep \<Longrightarrow> split sep (c # cs) = (c # hd (split sep cs)) # tl (split sep cs)"
  using split_nonempty[of sep cs] by (auto split: list.splits)

lemma split_Cons_sep: "split sep (sep # cs) = [] # split sep cs"
  by simp

lemma split_hd: "hd (split sep s) = takeWhile (\<lambda>c. c \<noteq> sep) s"
proof (induction s)
  case Nil
  show ?case by simp
next
  case (Cons c cs)
  show ?case
  proof (cases "c = sep")
    case True
    then show ?thesis by (simp only: split_Cons_sep) simp
  next
    case False
    then show ?thesis by (simp only: split_Cons_other[OF False]) (simp add: Cons.IH)
  qed
qed

lemma split_tl:
  "sep \<in> set s \<Longrightarrow> tl (split sep s) = split sep (tl (dropWhile (\<lambda>c. c \<noteq> sep) s))"
proof (induction s)
  case Nil
  then show ?case by simp
next
  case (Cons c cs)
  show ?case
  proof (cases "c = sep")
    case True
    then show ?thesis by (simp only: split_Cons_sep) simp
  next
    case False
    with Cons.prems have "sep \<in> set cs" by simp
    from Cons.IH[OF this] False show ?thesis
      by (simp only: split_Cons_other[OF False]) simp
  qed
qed

lemma join_split: "join sep (split sep s) = s"
proof (induction s)
  case Nil
  show ?case by simp
next
  case (Cons c cs)
  obtain p ps where ps: "split sep cs = p # ps"
    using split_nonempty[of sep cs] by (cases "split sep cs") auto
  show ?case
  proof (cases "c = sep")
    case True
    with Cons ps show ?thesis by simp
  next
    case False
    with Cons ps show ?thesis by (cases ps) auto
  qed
qed

lemma join_tl_split:
  "sep \<in> set s \<Longrightarrow> join sep (tl (split sep s)) = tl (dropWhile (\<lambda>c. c \<noteq> sep) s)"
  by (simp add: split_tl join_split)

lemma split_second:
  assumes "sep \<in> set s"
  shows "split sep s ! 1 = takeWhile (\<lambda>c. c \<noteq> sep) (tl (dropWhile (\<lambda>c. c \<noteq> sep) s))"
proof -
  have "split sep s ! 1 = hd (tl (split sep s))"
    using assms split_length[of sep s]
    by (cases "split sep s"; cases "tl (split sep s)") auto
  then show ?thesis using assms by (simp add: split_tl split_hd)
qed

lemma parseMechanism_cases:
  "parseMechanism t =
     (let q = qualifierOf t; r = afterQualifier t in
      if CHR '':'' \<in> set r then
        \<lparr>qualifier = q, type = takeWhile (\<lambda>c. c \<noteq> CHR '':'') r,
          value' = tl (dropWhile (\<lambda>c. c \<noteq> CHR '':'') r)\<rparr>
      else if CHR ''='' \<in> set r then
        \<lparr>qualifier = q, type = takeWhile (\<lambda>c. c \<noteq> CHR ''='') r,
          value' = takeWhile (\<lambda>c. c \<noteq> CHR ''='') (tl (dropWhile (\<lambda>c. c \<noteq> CHR ''='') r))\<rparr>
      else \<lparr>qualifier = q, type = r, value' = (if r = ''all'' then ''all'' else '''')\<rparr>)"
proof -
  have q: "(case t of [] \<Rightarrow> (''+'', t)
             | c # rest \<Rightarrow>
                 if c \<in> set [CHR ''+'', CHR ''-'', CHR ''~'', CHR ''?'']
                 then ([c], rest) else (''+'', t)) = (qualifierOf t, afterQualifier t)"
    by (simp add: qualifierOf_def afterQualifier_def split: list.splits)
  have n0: "\<And>sep r. split sep r ! 0 = takeWhile (\<lambda>c. c \<noteq> sep) r"
    using split_hd split_nonempty by (metis hd_conv_nth)
  let ?r = "afterQualifier t"
  consider (colon) "CHR '':'' \<in> set ?r"
    | (equals) "CHR '':'' \<notin> set ?r" "CHR ''='' \<in> set ?r"
    | (plain) "CHR '':'' \<notin> set ?r" "CHR ''='' \<notin> set ?r"
    by blast
  then show ?thesis
  proof cases
    case colon
    then have "1 < length (split CHR '':'' ?r)" by (simp only: split_length)
    with colon show ?thesis
      unfolding parseMechanism_def q
      by (simp only: Let_def prod.case if_True split_hd join_tl_split[OF colon])
  next
    case equals
    then have "\<not> 1 < length (split CHR '':'' ?r)" by (simp only: split_length) simp
    with equals show ?thesis
      unfolding parseMechanism_def q
      by (simp only: Let_def prod.case if_True if_False n0 split_second[OF equals(2)])
  next
    case plain
    then have "\<not> 1 < length (split CHR '':'' ?r)" by (simp only: split_length) simp
    with plain show ?thesis
      unfolding parseMechanism_def q
      by (simp only: Let_def prod.case if_True if_False) simp
  qed
qed

lemma parseSpf_total:
  "s \<noteq> [] \<Longrightarrow>
     parseSpf s = Inr (map parseMechanism
                        (filter (\<lambda>part. length part > 0) (splitWhitespace s [] False)))"
  by (simp add: parseSpf_def)

lemma splitWhitespace_pieces:
  "list_all (\<lambda>c. \<not> isWhitespace c) piece \<Longrightarrow>
     list_all (list_all (\<lambda>c. \<not> isWhitespace c)) (splitWhitespace s piece inRun)"
proof (induction s arbitrary: piece inRun)
  case Nil
  then show ?case by simp
next
  case (Cons c cs)
  show ?case
  proof (cases "isWhitespace c")
    case True
    have "list_all (list_all (\<lambda>c. \<not> isWhitespace c)) (splitWhitespace cs [] True)"
      by (rule Cons.IH) simp
    moreover have "list_all (list_all (\<lambda>c. \<not> isWhitespace c)) (splitWhitespace cs piece True)"
      by (rule Cons.IH) (rule Cons.prems)
    ultimately show ?thesis using True Cons.prems by simp
  next
    case False
    have "list_all (list_all (\<lambda>c. \<not> isWhitespace c)) (splitWhitespace cs (piece @ [c]) False)"
      by (rule Cons.IH) (use False Cons.prems in simp)
    with False show ?thesis by simp
  qed
qed

lemma parseSpf_tokens:
  assumes "parseSpf s = Inr ms"
  shows "length ms = length (filter (\<lambda>part. length part > 0) (splitWhitespace s [] False))"
    and "k < length ms \<Longrightarrow>
           ms ! k = parseMechanism (filter (\<lambda>part. length part > 0) (splitWhitespace s [] False) ! k)"
  using assms by (auto simp: parseSpf_def split: if_splits)
lemma splitWhitespace_concat:
  "concat (splitWhitespace s piece inRun) = piece @ filter (\<lambda>c. \<not> isWhitespace c) s"
  by (induction s piece inRun rule: splitWhitespace.induct) simp_all

text \<open>
  C7. \<open>parseSpf\<close> is total on non-empty strings, maps the k-th token to the k-th
  mechanism, and takes the qualifier and the parts around the first \<^verbatim>\<open>:\<close> as the claim
  says (\<open>parseSpf_total\<close>, \<open>parseSpf_tokens\<close>, \<open>parseMechanism_cases\<close>). In the
  \<^verbatim>\<open>=\<close> branch the value is \<^verbatim>\<open>partsWithEquals[1]\<close>, the text between the first and
  the second \<^verbatim>\<open>=\<close>: what follows a second \<^verbatim>\<open>=\<close> is lost, where the \<^verbatim>\<open>:\<close> branch
  joins the remaining parts again. The two branches at \<^verbatim>\<open>foo=bar=baz\<close> and at
  \<^verbatim>\<open>ip6:2001:0db8::/32\<close>:
\<close>

theorem parseSpf_second_equals_dropped:
  "parseSpf ''v=spf1 foo=bar=baz -all''
     = Inr [mech ''+'' ''v'' ''spf1'', mech ''+'' ''foo'' ''bar'', mech ''-'' ''all'' ''all'']
   \<and> parseSpf ''v=spf1 ip6:2001:0db8::/32''
     = Inr [mech ''+'' ''v'' ''spf1'', mech ''+'' ''ip6'' ''2001:0db8::/32'']"
  by code_simp

subsection \<open>The trailing all mechanism\<close>








end
